theory Spec2Isabelle
  imports Main
begin

section \<open>JavaScript values\<close>

text \<open>
  The values that the two components store, compare and pass to promises.
  \<^item> A number is known by the string that JavaScript prints for it (\<^verbatim>\<open>0\<close>, \<^verbatim>\<open>-1.5\<close>,
    \<^verbatim>\<open>1e+21\<close>, \<^verbatim>\<open>NaN\<close>): that string decides its truthiness, its equality as a key
    of a \<^verbatim>\<open>Map\<close> and its string coercion.
  \<^item> \<open>JObj\<close> is a reference to an object without a \<^verbatim>\<open>then\<close> method; \<open>JError\<close> is an
    \<^verbatim>\<open>Error\<close> with its message.
  \<^item> An object with a \<^verbatim>\<open>then\<close> method is known by its identity and by what the method
    does with the two callbacks it is given: it calls the first with a value, it calls
    the second with a reason, or it calls neither.
\<close>

datatype jsval =
  Undefined | Null | JBool bool | JNum string | JStr string | JObj nat | JError string
  | ThenResolves nat jsval | ThenRejects nat jsval | ThenSilent nat

fun truthy :: "jsval \<Rightarrow> bool" where
  "truthy Undefined = False"
| "truthy Null = False"
| "truthy (JBool b) = b"
| "truthy (JNum n) = (n \<noteq> ''0'' \<and> n \<noteq> ''NaN'')"
| "truthy (JStr s) = (s \<noteq> [])"
| "truthy v = True"

fun thenable :: "jsval \<Rightarrow> bool" where
  "thenable (ThenResolves r v) = True"
| "thenable (ThenRejects r e) = True"
| "thenable (ThenSilent r) = True"
| "thenable v = False"

definition digit_char :: "nat \<Rightarrow> char" where
  "digit_char d = char_of (48 + d)"

function show_nat :: "nat \<Rightarrow> string" where
  "show_nat n = (if n < 10 then [digit_char n] else show_nat (n div 10) @ [digit_char (n mod 10)])"
  by pat_completeness auto
termination
  by (relation "measure (\<lambda>n. n)") auto

declare show_nat.simps [simp del]

text \<open>
  String coercion, as a template literal or a property key applies it. Objects print with
  the \<^verbatim>\<open>toString\<close> they inherit.
\<close>

fun to_string :: "jsval \<Rightarrow> string" where
  "to_string Undefined = ''undefined''"
| "to_string Null = ''null''"
| "to_string (JBool b) = (if b then ''true'' else ''false'')"
| "to_string (JNum n) = n"
| "to_string (JStr s) = s"
| "to_string (JError m) = (if m = [] then ''Error'' else ''Error: '' @ m)"
| "to_string v = ''[object Object]''"

section \<open>The world of lazy-loader.js\<close>

text \<open>
  The global object: a property is absent (\<open>None\<close>) or has a value. A presence check
  such as \<^verbatim>\<open>() => window.cv\<close> is a function of the global object.
\<close>

type_synonym globals = "string \<rightharpoonup> jsval"

type_synonym checkFn = "globals \<Rightarrow> jsval"

definition read_global :: "string \<Rightarrow> checkFn" where
  "read_global g win = (case win g of None \<Rightarrow> Undefined | Some v \<Rightarrow> v)"

text \<open>
  A promise is pending, fulfilled with a value or rejected with a reason. The promise of
  an \<^verbatim>\<open>async\<close> function that returned promise \<open>q\<close> is \<open>Adopts q\<close>: a different object
  that settles as \<open>q\<close> does. \<open>Caught q\<close> is \<^verbatim>\<open>q.catch(() => {})\<close>.
\<close>

datatype settled = Pending | Fulfilled jsval | Rejected jsval | Adopts nat | Caught nat

text \<open>
  What a promise becomes when it is resolved with a value, by \<^verbatim>\<open>Promise.resolve(v)\<close> or
  by the \<^verbatim>\<open>resolve\<close> function of its executor: a value with a \<^verbatim>\<open>then\<close> method is not
  stored but followed. The promise takes the value the method passes on (itself resolved
  in the same way), is rejected with the reason the method gives, or stays pending when
  the method calls neither callback.
\<close>

fun resolution :: "jsval \<Rightarrow> settled" where
  "resolution (ThenResolves r v) = resolution v"
| "resolution (ThenRejects r e) = Rejected e"
| "resolution (ThenSilent r) = Pending"
| "resolution v = Fulfilled v"

text \<open>
  A script element appended to the document head by \<open>loadScript\<close>, with the variables
  its \<^verbatim>\<open>onload\<close> and \<^verbatim>\<open>onerror\<close> closures hold. \<open>fired\<close> is the browser's: a script
  element reports load or error once.
\<close>

record script_el =
  src :: string
  async_attr :: bool
  lib_name :: jsval
  lib_url :: jsval
  lib_check :: "checkFn option"
  settles :: nat
  fired :: bool

datatype task = IdleCallback jsval nat | Timeout jsval nat

record world =
  loadedLibraries :: "jsval \<rightharpoonup> jsval"
  loadingPromises :: "jsval \<rightharpoonup> nat"
  promises :: "settled list"
  doc_head :: "script_el list"
  window :: globals
  tasks :: "task list"

definition constructor :: "globals \<Rightarrow> world" where
  "constructor win =
     \<lparr>loadedLibraries = Map.empty, loadingPromises = Map.empty, promises = [],
      doc_head = [], window = win, tasks = []\<rparr>"

subsection \<open>Promises\<close>

definition new_promise :: "settled \<Rightarrow> world \<Rightarrow> nat \<times> world" where
  "new_promise s w = (length (promises w), w\<lparr>promises := promises w @ [s]\<rparr>)"

text \<open>
  The resolving functions of a promise: only a pending promise changes. (Each promise of
  the loader has its resolving functions called once, by the one handler of its script
  that runs.)
\<close>

definition settle :: "nat \<Rightarrow> settled \<Rightarrow> world \<Rightarrow> world" where
  "settle p s w =
     (if p < length (promises w) \<and> promises w ! p = Pending
      then w\<lparr>promises := (promises w)[p := s]\<rparr> else w)"

text \<open>
  What a promise has settled to once the adoption jobs have run: follow the links, at
  most as many as there are promises.
\<close>

fun follow :: "nat \<Rightarrow> settled list \<Rightarrow> nat \<Rightarrow> settled" where
  "follow 0 ps p = Pending"
| "follow (Suc n) ps p =
     (if p < length ps then
        (case ps ! p of
           Adopts q \<Rightarrow> follow n ps q
         | Caught q \<Rightarrow> (case follow n ps q of Rejected e \<Rightarrow> Fulfilled Undefined | s \<Rightarrow> s)
         | s \<Rightarrow> s)
      else Pending)"

definition outcome :: "world \<Rightarrow> nat \<Rightarrow> settled" where
  "outcome w p = follow (length (promises w)) (promises w) p"

subsection \<open>loadScript\<close>

definition check_truthy :: "checkFn option \<Rightarrow> globals \<Rightarrow> bool" where
  "check_truthy checkFn win = (case checkFn of None \<Rightarrow> False | Some c \<Rightarrow> truthy (c win))"

definition failed_message :: "jsval \<Rightarrow> jsval \<Rightarrow> string" where
  "failed_message name url =
     ''Failed to load library: '' @ to_string name @ '' from '' @ to_string url"

text \<open>The body of \<open>loadScript\<close>: the promise of its \<^verbatim>\<open>return\<close> statement and the new world.\<close>

definition call_check :: "checkFn option \<Rightarrow> globals \<Rightarrow> jsval" where
  "call_check checkFn win = (case checkFn of None \<Rightarrow> Undefined | Some c \<Rightarrow> c win)"

definition loadScript_body :: "world \<Rightarrow> jsval \<Rightarrow> jsval \<Rightarrow> checkFn option \<Rightarrow> nat \<times> world" where
  "loadScript_body w name url checkFn =
     (if check_truthy checkFn (window w) then
        new_promise (resolution (call_check checkFn (window w)))
          (w\<lparr>loadedLibraries := (loadedLibraries w)(name \<mapsto> JBool True)\<rparr>)
      else
        (case loadedLibraries w name of
           Some cached \<Rightarrow> new_promise (resolution cached) w
         | None \<Rightarrow>
            (case loadingPromises w name of
               Some p \<Rightarrow> (p, w)
             | None \<Rightarrow>
                (let (p, w1) = new_promise Pending w;
                     script = \<lparr>src = to_string url, async_attr = True, lib_name = name,
                               lib_url = url, lib_check = checkFn, settles = p,
                               fired = False\<rparr>;
                     w2 = w1\<lparr>doc_head := doc_head w1 @ [script]\<rparr>
                 in (p, w2\<lparr>loadingPromises := (loadingPromises w2)(name \<mapsto> p)\<rparr>)))))"

text \<open>
  \<open>loadScript\<close> is declared \<^verbatim>\<open>async\<close>: each call returns a promise of its own, resolved
  with the promise that the body returns.
\<close>

definition loadScript :: "world \<Rightarrow> jsval \<Rightarrow> jsval \<Rightarrow> checkFn option \<Rightarrow> nat \<times> world" where
  "loadScript w name url checkFn =
     (let (r, w1) = loadScript_body w name url checkFn in new_promise (Adopts r) w1)"

text \<open>The script's \<^verbatim>\<open>onload\<close> and \<^verbatim>\<open>onerror\<close> handlers, for the \<open>k\<close>-th script of the head.\<close>

definition script_onload :: "world \<Rightarrow> nat \<Rightarrow> world" where
  "script_onload w k =
     (if k < length (doc_head w) \<and> \<not> fired (doc_head w ! k) then
        (let s = doc_head w ! k;
             lib = (case lib_check s of None \<Rightarrow> JBool True | Some c \<Rightarrow> c (window w));
             w1 = w\<lparr>doc_head := (doc_head w)[k := s\<lparr>fired := True\<rparr>]\<rparr>;
             w2 = w1\<lparr>loadedLibraries := (loadedLibraries w1)(lib_name s \<mapsto> lib)\<rparr>;
             w3 = w2\<lparr>loadingPromises := (loadingPromises w2)(lib_name s := None)\<rparr>
         in settle (settles s) (resolution lib) w3)
      else w)"

definition script_onerror :: "world \<Rightarrow> nat \<Rightarrow> world" where
  "script_onerror w k =
     (if k < length (doc_head w) \<and> \<not> fired (doc_head w ! k) then
        (let s = doc_head w ! k;
             w1 = w\<lparr>doc_head := (doc_head w)[k := s\<lparr>fired := True\<rparr>]\<rparr>;
             w2 = w1\<lparr>loadingPromises := (loadingPromises w1)(lib_name s := None)\<rparr>
         in settle (settles s) (Rejected (JError (failed_message (lib_name s) (lib_url s)))) w2)
      else w)"

subsection \<open>The named loaders, isLoaded, unload\<close>

definition async_call :: "nat \<times> world \<Rightarrow> nat \<times> world" where
  "async_call rw = (case rw of (r, w) \<Rightarrow> new_promise (Adopts r) w)"

definition loadOpenCV :: "world \<Rightarrow> nat \<times> world" where
  "loadOpenCV w =
     async_call (loadScript w (JStr ''opencv'') (JStr ''/assets/js/opencv.js'')
                   (Some (read_global ''cv'')))"

definition loadFaceAPI :: "world \<Rightarrow> nat \<times> world" where
  "loadFaceAPI w =
     async_call (loadScript w (JStr ''faceapi'')
                   (JStr ''https://cdn.jsdelivr.net/npm/face-api.js@0.22.2/dist/face-api.min.js'')
                   (Some (read_global ''faceapi'')))"

definition loadTesseract :: "world \<Rightarrow> nat \<times> world" where
  "loadTesseract w =
     async_call (loadScript w (JStr ''tesseract'')
                   (JStr ''https://cdn.jsdelivr.net/npm/tesseract.js@5.1.0/dist/tesseract.min.js'')
                   (Some (read_global ''Tesseract'')))"

definition loadJsPDF :: "world \<Rightarrow> nat \<times> world" where
  "loadJsPDF w =
     async_call (loadScript w (JStr ''jspdf'') (JStr ''/assets/js/jspdf.umd.min.js'')
                   (Some (read_global ''jspdf'')))"

definition isLoaded :: "world \<Rightarrow> jsval \<Rightarrow> bool" where
  "isLoaded w name = (name \<in> dom (loadedLibraries w))"

definition unload :: "world \<Rightarrow> jsval \<Rightarrow> world" where
  "unload w name =
     (let w1 = w\<lparr>loadedLibraries := (loadedLibraries w)(name := None)\<rparr>
      in w1\<lparr>loadingPromises := (loadingPromises w1)(name := None)\<rparr>)"


subsection \<open>preload\<close>

text \<open>
  \<open>preload\<close> only schedules the closure \<^verbatim>\<open>load\<close>: with \<^verbatim>\<open>requestIdleCallback\<close> when the
  global object has that property, with \<^verbatim>\<open>setTimeout\<close> otherwise.
\<close>

definition preload :: "world \<Rightarrow> jsval \<Rightarrow> world" where
  "preload w method =
     (if ''requestIdleCallback'' \<in> dom (window w)
      then w\<lparr>tasks := tasks w @ [IdleCallback method 2000]\<rparr>
      else w\<lparr>tasks := tasks w @ [Timeout method 1000]\<rparr>)"

text \<open>
  The properties of a \<open>LazyLibraryLoader\<close> whose \<^verbatim>\<open>typeof\<close> is \<^verbatim>\<open>'function'\<close>: the methods of
  the class, its constructor, and the functions inherited from \<^verbatim>\<open>Object.prototype\<close>.
  The two own properties \<open>loadedLibraries\<close> and \<open>loadingPromises\<close> are objects.
\<close>

datatype member =
  Constructor | LoadScript | LoadOpenCV | LoadFaceAPI | LoadTesseract | LoadJsPDF
  | Preload | IsLoaded | Unload | ObjectMethod

definition object_prototype_functions :: "string list" where
  "object_prototype_functions =
     [''hasOwnProperty'', ''isPrototypeOf'', ''propertyIsEnumerable'', ''toLocaleString'',
      ''toString'', ''valueOf'', ''__defineGetter__'', ''__defineSetter__'',
      ''__lookupGetter__'', ''__lookupSetter__'']"

definition method_of :: "string \<Rightarrow> member option" where
  "method_of key =
     (if key = ''constructor'' then Some Constructor
      else if key = ''loadScript'' then Some LoadScript
      else if key = ''loadOpenCV'' then Some LoadOpenCV
      else if key = ''loadFaceAPI'' then Some LoadFaceAPI
      else if key = ''loadTesseract'' then Some LoadTesseract
      else if key = ''loadJsPDF'' then Some LoadJsPDF
      else if key = ''preload'' then Some Preload
      else if key = ''isLoaded'' then Some IsLoaded
      else if key = ''unload'' then Some Unload
      else if key \<in> set object_prototype_functions then Some ObjectMethod
      else None)"

datatype js_error = TypeError

definition catch_swallow :: "nat \<times> world \<Rightarrow> js_error option \<times> world" where
  "catch_swallow rw = (case rw of (r, w) \<Rightarrow> (None, snd (new_promise (Caught r) w)))"

text \<open>
  The closure \<^verbatim>\<open>load\<close>. The member is called without arguments; a member that returns
  no promise makes \<^verbatim>\<open>.catch\<close> throw a TypeError inside the callback.
\<close>

definition load_callback :: "world \<Rightarrow> jsval \<Rightarrow> js_error option \<times> world" where
  "load_callback w method =
     (case method_of (to_string method) of
        None \<Rightarrow> (None, w)
      | Some LoadScript \<Rightarrow> catch_swallow (loadScript w Undefined Undefined None)
      | Some LoadOpenCV \<Rightarrow> catch_swallow (loadOpenCV w)
      | Some LoadFaceAPI \<Rightarrow> catch_swallow (loadFaceAPI w)
      | Some LoadTesseract \<Rightarrow> catch_swallow (loadTesseract w)
      | Some LoadJsPDF \<Rightarrow> catch_swallow (loadJsPDF w)
      | Some Preload \<Rightarrow> (Some TypeError, preload w Undefined)
      | Some IsLoaded \<Rightarrow> (Some TypeError, w)
      | Some Unload \<Rightarrow> (Some TypeError, unload w Undefined)
      | Some Constructor \<Rightarrow> (Some TypeError, w)
      | Some ObjectMethod \<Rightarrow> (Some TypeError, w))"

fun task_method :: "task \<Rightarrow> jsval" where
  "task_method (IdleCallback m t) = m"
| "task_method (Timeout m t) = m"

text \<open>The event loop runs the \<open>k\<close>-th scheduled callback and drops it from the queue.\<close>

definition run_task :: "world \<Rightarrow> nat \<Rightarrow> js_error option \<times> world" where
  "run_task w k =
     (if k < length (tasks w)
      then load_callback (w\<lparr>tasks := take k (tasks w) @ drop (Suc k) (tasks w)\<rparr>)
             (task_method (tasks w ! k))
      else (None, w))"

subsection \<open>Events\<close>

text \<open>
  Everything that can happen to a loader: a call of one of its methods, the load or error
  event of an injected script, a scheduled callback, and the page changing a global.
\<close>

datatype loader_event =
  CallLoadScript jsval jsval "checkFn option"
  | CallLoadOpenCV | CallLoadFaceAPI | CallLoadTesseract | CallLoadJsPDF
  | CallPreload jsval
  | CallIsLoaded jsval
  | CallUnload jsval
  | ScriptLoad nat
  | ScriptError nat
  | RunTask nat
  | SetGlobal string "jsval option"

fun step :: "world \<Rightarrow> loader_event \<Rightarrow> world" where
  "step w (CallLoadScript name url checkFn) = snd (loadScript w name url checkFn)"
| "step w CallLoadOpenCV = snd (loadOpenCV w)"
| "step w CallLoadFaceAPI = snd (loadFaceAPI w)"
| "step w CallLoadTesseract = snd (loadTesseract w)"
| "step w CallLoadJsPDF = snd (loadJsPDF w)"
| "step w (CallPreload method) = preload w method"
| "step w (CallIsLoaded name) = w"
| "step w (CallUnload name) = unload w name"
| "step w (ScriptLoad k) = script_onload w k"
| "step w (ScriptError k) = script_onerror w k"
| "step w (RunTask k) = snd (run_task w k)"
| "step w (SetGlobal g v) = w\<lparr>window := (window w)(g := v)\<rparr>"

definition run :: "world \<Rightarrow> loader_event list \<Rightarrow> world" where
  "run w evs = foldl step w evs"

subsection \<open>Vocabulary for the properties of the loader\<close>

text \<open>
  A promise that is not a link to another one; and the order in which promises change:
  new ones appear, a pending one may settle, nothing else changes.
\<close>

fun plain :: "settled \<Rightarrow> bool" where
  "plain (Adopts q) = False"
| "plain (Caught q) = False"
| "plain s = True"

definition advances :: "world \<Rightarrow> world \<Rightarrow> bool" where
  "advances w w' =
     (length (promises w) \<le> length (promises w') \<and>
      (\<forall>i < length (promises w).
          promises w' ! i = promises w ! i \<or> (promises w ! i = Pending \<and> plain (promises w' ! i))))"

text \<open>Several requests for one name, one after the other, each with its own URL and check.\<close>

fun loadScripts :: "world \<Rightarrow> jsval \<Rightarrow> (jsval \<times> checkFn option) list \<Rightarrow> nat list \<times> world" where
  "loadScripts w name [] = ([], w)"
| "loadScripts w name ((url, checkFn) # reqs) =
     (let (r, w1) = loadScript w name url checkFn;
          (rs, w2) = loadScripts w1 name reqs
      in (r # rs, w2))"













text \<open>Worlds used as examples.\<close>

definition pdf_requested :: world where
  "pdf_requested =
     snd (loadScript (constructor Map.empty) (JStr ''pdf'') (JStr ''/lib/pdf.js'')
            (Some (read_global ''pdfLib'')))"

definition x_requested :: world where
  "x_requested = snd (loadScript (constructor Map.empty) (JStr ''x'') (JStr ''bad/url.js'') None)"

definition x_present :: world where
  "x_present = constructor [''x'' \<mapsto> JObj 7]"

definition x_recorded :: world where
  "x_recorded = snd (loadScript x_present (JStr ''x'') (JStr ''/x.js'') (Some (read_global ''x'')))"



definition cv_thenable :: world where
  "cv_thenable = constructor [''cv'' \<mapsto> ThenResolves 7 (JStr ''inner'')]"

section \<open>The world of the event listener manager\<close>

text \<open>
  An element argument is \<^verbatim>\<open>null\<close>, \<^verbatim>\<open>undefined\<close> or a DOM element, known by its identity.
  A handler is a function reference, compared by identity. The options argument of
  \<^verbatim>\<open>addEventListener\<close> is a boolean (the capture flag) or an object of flags.
\<close>

datatype element_ref = ElNull | ElUndefined | Element nat

datatype listener_options = Flag bool | Options bool bool bool

fun capture_of :: "listener_options \<Rightarrow> bool" where
  "capture_of (Flag b) = b"
| "capture_of (Options capture once passive) = capture"

fun once_of :: "listener_options \<Rightarrow> bool" where
  "once_of (Flag b) = False"
| "once_of (Options capture once passive) = once"

fun passive_of :: "listener_options \<Rightarrow> bool" where
  "passive_of (Flag b) = False"
| "passive_of (Options capture once passive) = passive"

text \<open>The browser side: the event listener list of an element.\<close>

record dom_listener =
  l_type :: string
  l_callback :: nat
  l_capture :: bool
  l_once :: bool
  l_passive :: bool

definition same_listener :: "string \<Rightarrow> nat \<Rightarrow> bool \<Rightarrow> dom_listener \<Rightarrow> bool" where
  "same_listener ty cb cap l = (l_type l = ty \<and> l_callback l = cb \<and> l_capture l = cap)"

text \<open>
  \<^verbatim>\<open>addEventListener\<close> appends unless the list already has a listener of that type,
  callback and capture flag; \<^verbatim>\<open>removeEventListener\<close> removes the listener of that type,
  callback and capture flag, if there is one.
\<close>

definition addEventListener ::
  "dom_listener list \<Rightarrow> string \<Rightarrow> nat \<Rightarrow> listener_options \<Rightarrow> dom_listener list" where
  "addEventListener ls ty cb opts =
     (if list_ex (same_listener ty cb (capture_of opts)) ls then ls
      else ls @ [\<lparr>l_type = ty, l_callback = cb, l_capture = capture_of opts,
                   l_once = once_of opts, l_passive = passive_of opts\<rparr>])"

fun remove_first :: "('a \<Rightarrow> bool) \<Rightarrow> 'a list \<Rightarrow> 'a list" where
  "remove_first P [] = []"
| "remove_first P (x # xs) = (if P x then xs else x # remove_first P xs)"

definition removeEventListener ::
  "dom_listener list \<Rightarrow> string \<Rightarrow> nat \<Rightarrow> listener_options \<Rightarrow> dom_listener list" where
  "removeEventListener ls ty cb opts = remove_first (same_listener ty cb (capture_of opts)) ls"

text \<open>
  The value \<^verbatim>\<open>{ event, handler, options }\<close> that the manager stores, and a \<^verbatim>\<open>Map\<close> from
  string keys to such values, in insertion order.
\<close>

record tracked =
  event :: string
  handler :: nat
  options :: listener_options

fun map_set :: "'k \<Rightarrow> 'v \<Rightarrow> ('k \<times> 'v) list \<Rightarrow> ('k \<times> 'v) list" where
  "map_set k v [] = [(k, v)]"
| "map_set k v ((k', v') # kvs) = (if k' = k then (k, v) # kvs else (k', v') # map_set k v kvs)"

definition map_delete :: "'k \<Rightarrow> ('k \<times> 'v) list \<Rightarrow> ('k \<times> 'v) list" where
  "map_delete k kvs = filter (\<lambda>kv. fst kv \<noteq> k) kvs"

text \<open>
  The manager, with the listener lists of the elements it works on. \<open>elementListeners\<close>
  is the WeakMap; \<open>listenerId\<close> is a natural number (the counter of the source is a
  double, exact up to \<open>2^53\<close>).
\<close>

record manager =
  elementListeners :: "nat \<rightharpoonup> (string \<times> tracked) list"
  listenerId :: nat
  dom_listeners :: "nat \<Rightarrow> dom_listener list"

definition new_manager :: manager where
  "new_manager = \<lparr>elementListeners = Map.empty, listenerId = 0, dom_listeners = (\<lambda>e. [])\<rparr>"

definition matches :: "string \<Rightarrow> nat \<Rightarrow> tracked \<Rightarrow> bool" where
  "matches ev h val = (event val = ev \<and> handler val = h)"

text \<open>The parameter default \<^verbatim>\<open>options = false\<close>.\<close>

definition options_of :: "listener_options option \<Rightarrow> listener_options" where
  "options_of opts_arg = (case opts_arg of None \<Rightarrow> Flag False | Some opts \<Rightarrow> opts)"

definition add ::
  "manager \<Rightarrow> element_ref \<Rightarrow> string \<Rightarrow> nat \<Rightarrow> listener_options option \<Rightarrow> manager" where
  "add m element ev h opts_arg =
     (case element of
        Element e \<Rightarrow>
          (let opts = options_of opts_arg;
               listeners = (case elementListeners m e of None \<Rightarrow> [] | Some ls \<Rightarrow> ls);
               m1 = m\<lparr>elementListeners := (elementListeners m)(e \<mapsto> listeners)\<rparr>;
               key = ev @ ''_'' @ show_nat (listenerId m1);
               m2 = m1\<lparr>listenerId := Suc (listenerId m1)\<rparr>;
               alreadyRegistered =
                 fold (\<lambda>(k, val) acc. if matches ev h val then True else acc) listeners False
           in if alreadyRegistered then m2
              else
                (let m3 = m2\<lparr>dom_listeners := (dom_listeners m2)
                             (e := addEventListener (dom_listeners m2 e) ev h opts)\<rparr>
                 in m3\<lparr>elementListeners := (elementListeners m3)
                          (e \<mapsto> map_set key \<lparr>event = ev, handler = h, options = opts\<rparr>
                                 listeners)\<rparr>))
      | _ \<Rightarrow> m)"

definition remove :: "manager \<Rightarrow> element_ref \<Rightarrow> string \<Rightarrow> nat \<Rightarrow> manager" where
  "remove m element ev h =
     (case element of
        Element e \<Rightarrow>
          (case elementListeners m e of
             None \<Rightarrow> m
           | Some listeners \<Rightarrow>
              (let (ls, keysToRemove) =
                     fold (\<lambda>(k, val) (ls, ks).
                             if matches ev h val
                             then (removeEventListener ls ev h (options val), ks @ [k])
                             else (ls, ks))
                       listeners (dom_listeners m e, []);
                   m1 = m\<lparr>dom_listeners := (dom_listeners m)(e := ls)\<rparr>
               in m1\<lparr>elementListeners := (elementListeners m1)
                        (e \<mapsto> fold map_delete keysToRemove listeners)\<rparr>))
      | _ \<Rightarrow> m)"

text \<open>\<open>removeAll\<close> only writes a warning to the console.\<close>

definition removeAll :: "manager \<Rightarrow> manager" where
  "removeAll m = m"

definition removeAllForElement :: "manager \<Rightarrow> element_ref \<Rightarrow> manager" where
  "removeAllForElement m element =
     (case element of
        Element e \<Rightarrow>
          (case elementListeners m e of
             None \<Rightarrow> m
           | Some listeners \<Rightarrow>
              (let ls = fold (\<lambda>(k, val) ls.
                               removeEventListener ls (event val) (handler val) (options val))
                          listeners (dom_listeners m e);
                   m1 = m\<lparr>dom_listeners := (dom_listeners m)(e := ls)\<rparr>
               in m1\<lparr>elementListeners := (elementListeners m1)(e := None)\<rparr>))
      | _ \<Rightarrow> m)"

text \<open>
  The browser dispatching an event of type \<open>ty\<close> at element \<open>e\<close>: the callbacks it
  invokes, in order (at the target the capture listeners come first, then the others,
  each group in the order of registration), and the world after it (a \<^verbatim>\<open>once\<close> listener
  is removed when it is invoked). What the callbacks do is outside the manager.
\<close>

definition dispatch :: "manager \<Rightarrow> nat \<Rightarrow> string \<Rightarrow> nat list \<times> manager" where
  "dispatch m e ty =
     (map l_callback (filter (\<lambda>l. l_type l = ty \<and> l_capture l) (dom_listeners m e)
                      @ filter (\<lambda>l. l_type l = ty \<and> \<not> l_capture l) (dom_listeners m e)),
      m\<lparr>dom_listeners := (dom_listeners m)
            (e := filter (\<lambda>l. \<not> (l_type l = ty \<and> l_once l)) (dom_listeners m e))\<rparr>)"

text \<open>A page that touches listeners only through the manager.\<close>

datatype manager_op =
  Add element_ref string nat "listener_options option"
  | Remove element_ref string nat
  | RemoveAllForElement element_ref
  | RemoveAll
  | Dispatch nat string

fun apply_op :: "manager \<Rightarrow> manager_op \<Rightarrow> manager" where
  "apply_op m (Add element ev h opts_arg) = add m element ev h opts_arg"
| "apply_op m (Remove element ev h) = remove m element ev h"
| "apply_op m (RemoveAllForElement element) = removeAllForElement m element"
| "apply_op m RemoveAll = removeAll m"
| "apply_op m (Dispatch e ty) = snd (dispatch m e ty)"

definition exec :: "manager_op list \<Rightarrow> manager" where
  "exec ops = foldl apply_op new_manager ops"

text \<open>The entries that the manager holds for an element, and how many are for a triple.\<close>

definition entries :: "manager \<Rightarrow> nat \<Rightarrow> tracked list" where
  "entries m e = (case elementListeners m e of None \<Rightarrow> [] | Some ls \<Rightarrow> map snd ls)"

definition registrations :: "manager \<Rightarrow> nat \<Rightarrow> string \<Rightarrow> nat \<Rightarrow> nat" where
  "registrations m e ev h = length (filter (matches ev h) (entries m e))"

definition tracked_of :: "manager \<Rightarrow> nat \<Rightarrow> (string \<times> tracked) list" where
  "tracked_of m e = (case elementListeners m e of None \<Rightarrow> [] | Some kvs \<Rightarrow> kvs)"

text \<open>The world after the browser has dispatched a sequence of events.\<close>

definition after_events :: "manager \<Rightarrow> (nat \<times> string) list \<Rightarrow> manager" where
  "after_events m evs = foldl (\<lambda>m (e, ty). snd (dispatch m e ty)) m evs"

text \<open>
  What holds of every element in a page that touches listeners only through the manager.
  The keys of its map are distinct, each made of the event name and a number below the
  counter; no two entries have the same event and handler; every listener on the element
  is the one of an entry, attached with the capture flag of its options; the element's
  listener list has no two listeners of the same type, callback and capture flag; and the
  listener of an entry without the \<^verbatim>\<open>once\<close> flag is on the element.
\<close>

definition listener_key :: "dom_listener \<Rightarrow> string \<times> nat \<times> bool" where
  "listener_key l = (l_type l, l_callback l, l_capture l)"

definition attached_for :: "tracked \<Rightarrow> dom_listener \<Rightarrow> bool" where
  "attached_for val l = same_listener (event val) (handler val) (capture_of (options val)) l"

definition element_ok ::
  "nat \<Rightarrow> (string \<times> tracked) list option \<Rightarrow> dom_listener list \<Rightarrow> bool" where
  "element_ok n tracked_map ls =
     (case tracked_map of
        None \<Rightarrow> ls = []
      | Some kvs \<Rightarrow>
          distinct (map fst kvs)
          \<and> (\<forall>kv \<in> set kvs. \<exists>i < n. fst kv = event (snd kv) @ ''_'' @ show_nat i)
          \<and> distinct (map (\<lambda>kv. (event (snd kv), handler (snd kv))) kvs)
          \<and> (\<forall>l \<in> set ls. \<exists>kv \<in> set kvs. attached_for (snd kv) l)
          \<and> distinct (map listener_key ls)
          \<and> (\<forall>kv \<in> set kvs. \<not> once_of (options (snd kv)) \<longrightarrow>
                 (\<exists>l \<in> set ls. attached_for (snd kv) l \<and> \<not> l_once l)))"

definition manager_ok :: "manager \<Rightarrow> bool" where
  "manager_ok m = (\<forall>e. element_ok (listenerId m) (elementListeners m e) (dom_listeners m e))"

section \<open>Properties of the loader\<close>

lemmas loader_eval =
  constructor_def loadScript_def loadScript_body_def new_promise_def check_truthy_def
  call_check_def read_global_def isLoaded_def Let_def run_def script_onload_def
  script_onerror_def settle_def outcome_def nth_append unload_def failed_message_def

subsection \<open>Promises only advance\<close>

lemma advances_refl: "advances w w"
  by (simp add: advances_def)

lemma advances_trans: "advances a b \<Longrightarrow> advances b c \<Longrightarrow> advances a c"
  unfolding advances_def
  apply (intro conjI allI impI)
   apply simp
  subgoal for i
    apply (elim conjE)
    apply (drule spec [of _ i])
    apply (drule spec [of _ i])
    apply auto
    done
  done

lemma advances_new_promise: "advances w (snd (new_promise s w))"
  by (simp add: advances_def new_promise_def nth_append)

lemma advances_settle: "plain s \<Longrightarrow> advances w (settle p s w)"
  by (auto simp: advances_def settle_def nth_list_update)

lemma advances_same_promises: "promises w' = promises w \<Longrightarrow> advances w w'"
  by (simp add: advances_def)

lemma advances_loadScript_body: "advances w (snd (loadScript_body w name url c))"
  by (auto simp: loadScript_body_def advances_def new_promise_def nth_append Let_def split: option.splits)

lemma advances_loadScript: "advances w (snd (loadScript w name url c))"
proof -
  obtain r w1 where b: "loadScript_body w name url c = (r, w1)" by fastforce
  have "advances w w1" using advances_loadScript_body [of w name url c] b by simp
  moreover have "advances w1 (snd (new_promise (Adopts r) w1))" by (rule advances_new_promise)
  ultimately show ?thesis using b by (auto simp: loadScript_def intro: advances_trans)
qed

lemma advances_async_call: "advances w (snd rw) \<Longrightarrow> advances w (snd (async_call rw))"
  by (cases rw) (auto simp: async_call_def intro: advances_trans advances_new_promise)

lemma advances_catch_swallow: "advances w (snd rw) \<Longrightarrow> advances w (snd (catch_swallow rw))"
  by (cases rw) (auto simp: catch_swallow_def intro: advances_trans advances_new_promise)

lemma advances_loaders:
  "advances w (snd (loadOpenCV w))" "advances w (snd (loadFaceAPI w))"
  "advances w (snd (loadTesseract w))" "advances w (snd (loadJsPDF w))"
  by (simp_all add: loadOpenCV_def loadFaceAPI_def loadTesseract_def loadJsPDF_def
      advances_async_call advances_loadScript)

lemma plain_resolution: "plain (resolution v)"
  by (induction v) simp_all

lemma advances_then_settle:
  "promises w1 = promises w \<Longrightarrow> plain s \<Longrightarrow> advances w (settle p s w1)"
  by (rule advances_trans [OF advances_same_promises advances_settle])

lemma advances_script_onload: "advances w (script_onload w k)"
  by (simp add: script_onload_def Let_def advances_refl advances_then_settle plain_resolution)

lemma advances_script_onerror: "advances w (script_onerror w k)"
  by (simp add: script_onerror_def Let_def advances_refl advances_then_settle)

lemma advances_preload: "advances w (preload w key)"
  by (simp add: preload_def advances_def)

lemma advances_unload: "advances w (unload w name)"
  by (simp add: unload_def advances_def Let_def)

lemma advances_load_callback: "advances w (snd (load_callback w key))"
  by (auto simp: load_callback_def advances_refl advances_preload advances_unload
      advances_loaders advances_loadScript advances_catch_swallow split: option.splits member.splits)

lemma advances_run_task: "advances w (snd (run_task w k))"
proof (cases "k < length (tasks w)")
  case True
  let ?w1 = "w\<lparr>tasks := take k (tasks w) @ drop (Suc k) (tasks w)\<rparr>"
  have "advances w ?w1" by (simp add: advances_def)
  moreover have "advances ?w1 (snd (load_callback ?w1 (task_method (tasks w ! k))))"
    by (rule advances_load_callback)
  ultimately show ?thesis using True by (auto simp: run_task_def intro: advances_trans)
next
  case False
  then show ?thesis by (simp add: run_task_def advances_refl)
qed

lemma advances_step: "advances w (step w ev)"
  by (cases ev) (simp_all add: advances_loadScript advances_loaders advances_preload advances_refl
      advances_unload advances_script_onload advances_script_onerror advances_run_task advances_def [of w "w\<lparr>window := _\<rparr>"])

lemma advances_run: "advances w (run w evs)"
proof (induction evs arbitrary: w)
  case Nil
  show ?case by (simp add: run_def advances_refl)
next
  case (Cons ev evs)
  have "advances w (step w ev)" by (rule advances_step)
  moreover have "advances (step w ev) (run (step w ev) evs)" by (rule Cons.IH)
  ultimately show ?case by (auto simp: run_def intro: advances_trans)
qed

lemma advances_keeps_adopts:
  "advances w w' \<Longrightarrow> r < length (promises w) \<Longrightarrow> promises w ! r = Adopts p \<Longrightarrow>
   r < length (promises w') \<and> promises w' ! r = Adopts p"
  by (auto simp: advances_def)

lemma advances_keeps_plain:
  "advances w w' \<Longrightarrow> p < length (promises w) \<Longrightarrow> plain (promises w ! p) \<Longrightarrow>
   p < length (promises w') \<and> plain (promises w' ! p)"
  by (auto simp: advances_def)


subsection \<open>What a promise settles to\<close>

lemma follow_plain: "p < length ps \<Longrightarrow> plain (ps ! p) \<Longrightarrow> follow (Suc n) ps p = ps ! p"
  by (cases "ps ! p") simp_all

lemma outcome_plain:
  "p < length (promises w) \<Longrightarrow> plain (promises w ! p) \<Longrightarrow> outcome w p = promises w ! p"
  by (cases "promises w") (simp_all add: outcome_def follow_plain del: follow.simps)

lemma outcome_adopts:
  assumes "r < length (promises w)" "promises w ! r = Adopts p"
    and "p < length (promises w)" "plain (promises w ! p)"
  shows "outcome w r = promises w ! p"
proof -
  have "r \<noteq> p" using assms by auto
  then have "2 \<le> length (promises w)" using assms(1,3) by linarith
  then obtain n where n: "length (promises w) = Suc (Suc n)"
    by (metis Suc_le_D numeral_2_eq_2 Suc_le_mono)
  have "follow (Suc (Suc n)) (promises w) r = follow (Suc n) (promises w) p"
    using assms(1,2) by simp
  also have "\<dots> = promises w ! p" using assms(3,4) by (rule follow_plain)
  finally show ?thesis by (simp add: outcome_def n)
qed

lemma same_outcome_later:
  assumes "advances w w'" "r < length (promises w)" "promises w ! r = Adopts p"
    and "p < length (promises w)" "plain (promises w ! p)"
  shows "outcome w' r = outcome w' p"
proof -
  have a: "r < length (promises w') \<and> promises w' ! r = Adopts p"
    using assms(1,2,3) by (rule advances_keeps_adopts)
  have b: "p < length (promises w') \<and> plain (promises w' ! p)"
    using assms(1,4,5) by (rule advances_keeps_plain)
  show ?thesis using a b by (simp add: outcome_adopts outcome_plain)
qed


subsection \<open>The branches of loadScript and of the script handlers\<close>

lemma loadScript_in_flight:
  assumes "loadingPromises w name = Some p" "\<not> isLoaded w name" "\<not> check_truthy c (window w)"
  shows "loadScript w name url c =
           (length (promises w), w\<lparr>promises := promises w @ [Adopts p]\<rparr>)"
proof -
  have "loadedLibraries w name = None" using assms(2) by (auto simp: isLoaded_def)
  then show ?thesis using assms(1,3)
    by (simp add: loadScript_def loadScript_body_def new_promise_def)
qed

lemma loadScripts_in_flight:
  assumes "loadingPromises w name = Some p" "\<not> isLoaded w name"
    and "\<forall>req \<in> set reqs. \<not> check_truthy (snd req) (window w)"
  shows "loadScripts w name reqs =
           ([length (promises w) ..< length (promises w) + length reqs],
            w\<lparr>promises := promises w @ replicate (length reqs) (Adopts p)\<rparr>)"
  using assms
proof (induction reqs arbitrary: w)
  case Nil
  then show ?case by simp
next
  case (Cons req reqs)
  obtain url c where req: "req = (url, c)" by (cases req)
  let ?w1 = "w\<lparr>promises := promises w @ [Adopts p]\<rparr>"
  have first: "loadScript w name url c = (length (promises w), ?w1)"
    using Cons.prems req by (simp add: loadScript_in_flight)
  have rest: "loadScripts ?w1 name reqs =
           ([length (promises ?w1) ..< length (promises ?w1) + length reqs],
            ?w1\<lparr>promises := promises ?w1 @ replicate (length reqs) (Adopts p)\<rparr>)"
    using Cons.prems by (intro Cons.IH) (simp_all add: isLoaded_def)
  have idx: "[length (promises w) ..< length (promises w) + length (req # reqs)] =
      length (promises w) # [length (promises ?w1) ..< length (promises ?w1) + length reqs]"
    by (simp add: upt_conv_Cons del: upt_Suc)
  have reps: "promises w @ replicate (length (req # reqs)) (Adopts p) =
      promises ?w1 @ replicate (length reqs) (Adopts p)"
    by simp
  show ?case
    unfolding idx reps by (simp add: req first rest del: upt_Suc)
qed



subsection \<open>The table of loaded libraries\<close>

lemma loaded_new_promise [simp]: "loadedLibraries (snd (new_promise s w)) = loadedLibraries w"
  by (simp add: new_promise_def)

lemma loaded_settle [simp]: "loadedLibraries (settle p s w) = loadedLibraries w"
  by (simp add: settle_def)

lemma window_new_promise [simp]: "window (snd (new_promise s w)) = window w"
  by (simp add: new_promise_def)


lemma loaded_async_call [simp]: "loadedLibraries (snd (async_call rw)) = loadedLibraries (snd rw)"
  by (cases rw) (simp add: async_call_def)

lemma loaded_catch_swallow [simp]:
  "loadedLibraries (snd (catch_swallow rw)) = loadedLibraries (snd rw)"
  by (cases rw) (simp add: catch_swallow_def)

lemma loaded_script_onload:
  "loadedLibraries (script_onload w k) =
     (if k < length (doc_head w) \<and> \<not> fired (doc_head w ! k)
      then (loadedLibraries w)(lib_name (doc_head w ! k) \<mapsto>
             (case lib_check (doc_head w ! k) of None \<Rightarrow> JBool True | Some c \<Rightarrow> c (window w)))
      else loadedLibraries w)"
  by (simp add: script_onload_def Let_def)

lemma loaded_script_onerror [simp]: "loadedLibraries (script_onerror w k) = loadedLibraries w"
  by (simp add: script_onerror_def Let_def)

lemma loaded_preload [simp]: "loadedLibraries (preload w key) = loadedLibraries w"
  by (simp add: preload_def)









subsection \<open>Every world of a loader is well formed\<close>
























subsection \<open>Promises that await another\<close>






subsection \<open>A new load and its success\<close>

lemma resolution_plain_value: "\<not> thenable v \<Longrightarrow> resolution v = Fulfilled v"
  by (cases v) simp_all


subsection \<open>Requests while a load is in flight\<close>

text \<open>
  C1, as the claim states it, fails: \<open>loadScript\<close> is an \<^verbatim>\<open>async\<close> function, so two calls
  made while the load of \<^verbatim>\<open>'pdf'\<close> is in flight (the name is in \<open>loadingPromises\<close> with
  the pending promise 0, it is not loaded, the presence check is not truthy) return two
  different promises, 2 and 3, and neither is the pending promise 0 of the table.
\<close>

theorem same_promise_counterexample:
  "loadingPromises pdf_requested (JStr ''pdf'') = Some 0
   \<and> promises pdf_requested ! 0 = Pending
   \<and> \<not> isLoaded pdf_requested (JStr ''pdf'')
   \<and> \<not> check_truthy (Some (read_global ''pdfLib'')) (window pdf_requested)
   \<and> fst (loadScript pdf_requested (JStr ''pdf'') (JStr ''/lib/pdf.js'')
             (Some (read_global ''pdfLib'')))
       \<noteq> fst (loadScript
             (snd (loadScript pdf_requested (JStr ''pdf'') (JStr ''/lib/pdf.js'')
                     (Some (read_global ''pdfLib''))))
             (JStr ''pdf'') (JStr ''/lib/pdf.js'') (Some (read_global ''pdfLib'')))
   \<and> fst (loadScript pdf_requested (JStr ''pdf'') (JStr ''/lib/pdf.js'')
             (Some (read_global ''pdfLib''))) \<noteq> 0"
  by (simp add: pdf_requested_def constructor_def loadScript_def loadScript_body_def
      new_promise_def check_truthy_def call_check_def read_global_def isLoaded_def Let_def)

text \<open>
  C1, amended. While a load for \<open>name\<close> is in flight (the name is in \<open>loadingPromises\<close>
  with a pending promise \<open>p\<close>, it is not loaded, and no presence check is truthy), any
  number of calls of \<open>loadScript\<close> for that name return as many new promises, each of
  which adopts the one pending promise \<open>p\<close>; no script is injected and the tables are
  unchanged; and whatever happens afterwards, each returned promise has the outcome of
  \<open>p\<close>: the same value or the same rejection.
\<close>

theorem concurrent_requests_share_one_load:
  assumes "loadingPromises w name = Some p" "p < length (promises w)" "promises w ! p = Pending"
    and "\<not> isLoaded w name"
    and "\<forall>req \<in> set reqs. \<not> check_truthy (snd req) (window w)"
  shows "case loadScripts w name reqs of (rs, w') \<Rightarrow>
     length rs = length reqs \<and> distinct rs \<and> p \<notin> set rs
     \<and> doc_head w' = doc_head w \<and> loadingPromises w' = loadingPromises w
     \<and> loadedLibraries w' = loadedLibraries w
     \<and> (\<forall>r \<in> set rs. promises w' ! r = Adopts p)
     \<and> (\<forall>evs. \<forall>r \<in> set rs. outcome (run w' evs) r = outcome (run w' evs) p)"
proof -
  let ?n = "length (promises w)"
  let ?rs = "[?n ..< ?n + length reqs]"
  let ?w' = "w\<lparr>promises := promises w @ replicate (length reqs) (Adopts p)\<rparr>"
  have eq: "loadScripts w name reqs = (?rs, ?w')"
    using assms(1,4,5) by (rule loadScripts_in_flight)
  have links: "\<forall>r \<in> set ?rs. r < length (promises ?w') \<and> promises ?w' ! r = Adopts p"
    by (auto simp: nth_append)
  have p': "p < length (promises ?w') \<and> plain (promises ?w' ! p)"
    using assms(2,3) by (simp add: nth_append)
  have later: "outcome (run ?w' evs) r = outcome (run ?w' evs) p" if "r \<in> set ?rs" for r evs
    using advances_run [of ?w' evs] links p' that by (intro same_outcome_later [of ?w']) auto
  show ?thesis
    unfolding eq using assms(2) links later by auto
qed

theorem concurrent_requests_share_one_load_witness:
  "loadingPromises pdf_requested (JStr ''pdf'') = Some 0
   \<and> 0 < length (promises pdf_requested) \<and> promises pdf_requested ! 0 = Pending
   \<and> \<not> isLoaded pdf_requested (JStr ''pdf'')
   \<and> \<not> check_truthy (Some (read_global ''pdfLib'')) (window pdf_requested)
   \<and> \<not> check_truthy None (window pdf_requested)
   \<and> (case loadScripts pdf_requested (JStr ''pdf'')
              [(JStr ''/lib/pdf.js'', Some (read_global ''pdfLib'')),
               (JStr ''/lib/pdf.js'', Some (read_global ''pdfLib'')),
               (JStr ''/other.js'', None)] of
         (rs, w') \<Rightarrow> rs = [2, 3, 4] \<and> length (doc_head w') = 1
           \<and> outcome (run w' [SetGlobal ''pdfLib'' (Some (JObj 1)), ScriptLoad 0]) 2
               = outcome (run w' [SetGlobal ''pdfLib'' (Some (JObj 1)), ScriptLoad 0]) 0
           \<and> outcome (run w' [SetGlobal ''pdfLib'' (Some (JObj 1)), ScriptLoad 0]) 3
               = outcome (run w' [SetGlobal ''pdfLib'' (Some (JObj 1)), ScriptLoad 0]) 0
           \<and> outcome (run w' [SetGlobal ''pdfLib'' (Some (JObj 1)), ScriptLoad 0]) 4
               = outcome (run w' [SetGlobal ''pdfLib'' (Some (JObj 1)), ScriptLoad 0]) 0
           \<and> outcome (run w' [SetGlobal ''pdfLib'' (Some (JObj 1)), ScriptLoad 0]) 0
               = Fulfilled (JObj 1))"
  using concurrent_requests_share_one_load [of pdf_requested "JStr ''pdf''" 0
      "[(JStr ''/lib/pdf.js'', Some (read_global ''pdfLib'')),
        (JStr ''/lib/pdf.js'', Some (read_global ''pdfLib'')),
        (JStr ''/other.js'', None)]"]
  by (simp add: pdf_requested_def loader_eval split: prod.splits)

subsection \<open>A failed load\<close>





subsection \<open>Presence check\<close>

text \<open>
  C3, as the claim states it, fails for a handle that has a \<^verbatim>\<open>then\<close> method: the global
  \<^verbatim>\<open>cv\<close> holds an object whose \<^verbatim>\<open>then\<close> passes on the string \<^verbatim>\<open>'inner'\<close>. The presence
  check returns that object, \<^verbatim>\<open>Promise.resolve\<close> follows it, and the caller gets
  \<^verbatim>\<open>'inner'\<close>, not the handle.
\<close>

theorem thenable_handle_counterexample:
  "truthy (read_global ''cv'' (window cv_thenable))
   \<and> read_global ''cv'' (window cv_thenable) = ThenResolves 7 (JStr ''inner'')
   \<and> outcome (snd (loadScript cv_thenable (JStr ''opencv'') (JStr ''/assets/js/opencv.js'')
                      (Some (read_global ''cv''))))
        (fst (loadScript cv_thenable (JStr ''opencv'') (JStr ''/assets/js/opencv.js'')
                (Some (read_global ''cv''))))
       = Fulfilled (JStr ''inner'')
   \<and> Fulfilled (JStr ''inner'') \<noteq> Fulfilled (ThenResolves 7 (JStr ''inner''))"
  by (simp add: cv_thenable_def loader_eval)

text \<open>
  C3, amended. When the presence check returns a truthy handle at call time, \<open>loadScript\<close>
  injects no script (the document head, the table of loads in flight and the scheduled
  callbacks are as before), records the library as loaded, and resolves the promise it
  returns with that handle: the promise is fulfilled with the handle when the handle has
  no \<^verbatim>\<open>then\<close> method, and follows the handle's \<^verbatim>\<open>then\<close> otherwise.
\<close>

theorem presence_check_short_circuit:
  assumes "truthy (c (window w))"
  shows "case loadScript w name url (Some c) of (r, w') \<Rightarrow>
     doc_head w' = doc_head w \<and> loadingPromises w' = loadingPromises w \<and> tasks w' = tasks w
     \<and> isLoaded w' name \<and> outcome w' r = resolution (c (window w))
     \<and> (\<not> thenable (c (window w)) \<longrightarrow> outcome w' r = Fulfilled (c (window w)))"
proof -
  let ?n = "length (promises w)"
  let ?w' = "w\<lparr>loadedLibraries := (loadedLibraries w)(name \<mapsto> JBool True),
               promises := promises w @ [resolution (c (window w)), Adopts ?n]\<rparr>"
  have eq: "loadScript w name url (Some c) = (Suc ?n, ?w')"
    using assms
    by (simp add: loadScript_def loadScript_body_def check_truthy_def call_check_def new_promise_def)
  have "outcome ?w' (Suc ?n) = promises ?w' ! ?n"
    by (rule outcome_adopts) (simp_all add: nth_append plain_resolution)
  then have out: "outcome ?w' (Suc ?n) = resolution (c (window w))" by (simp add: nth_append)
  have plain_handle: "\<not> thenable (c (window w)) \<longrightarrow>
      outcome ?w' (Suc ?n) = Fulfilled (c (window w))"
  proof
    assume "\<not> thenable (c (window w))"
    then have "resolution (c (window w)) = Fulfilled (c (window w))"
      by (rule resolution_plain_value)
    with out show "outcome ?w' (Suc ?n) = Fulfilled (c (window w))" by (simp only:)
  qed
  have fields: "doc_head ?w' = doc_head w" "loadingPromises ?w' = loadingPromises w"
      "tasks ?w' = tasks w" "isLoaded ?w' name"
    by (simp_all add: isLoaded_def)
  show ?thesis
    unfolding eq prod.case using fields out plain_handle by blast
qed

theorem presence_check_short_circuit_witness:
  "truthy (read_global ''cv'' (window (constructor [''cv'' \<mapsto> JObj 7])))
   \<and> \<not> thenable (read_global ''cv'' (window (constructor [''cv'' \<mapsto> JObj 7])))
   \<and> (case loadScript (constructor [''cv'' \<mapsto> JObj 7]) (JStr ''opencv'')
           (JStr ''/assets/js/opencv.js'') (Some (read_global ''cv'')) of
     (r, w') \<Rightarrow> doc_head w' = [] \<and> isLoaded w' (JStr ''opencv'')
        \<and> outcome w' r = Fulfilled (JObj 7))"
  using presence_check_short_circuit [of "read_global ''cv''" "constructor [''cv'' \<mapsto> JObj 7]"
      "JStr ''opencv''" "JStr ''/assets/js/opencv.js''"]
  by (simp add: constructor_def read_global_def split: prod.splits)

subsection \<open>The cached value\<close>

text \<open>
  C4 at a concrete input. The global \<^verbatim>\<open>x\<close> holds the object 7. The request
  \<^verbatim>\<open>loadScript('x', '/x.js', () => window.x)\<close> succeeds through the presence check and
  is fulfilled with the object 7, and the name is loaded. The next request for the name,
  \<^verbatim>\<open>loadScript('x', '/x.js')\<close> without a check, injects nothing and is fulfilled from the
  cache: with \<^verbatim>\<open>true\<close>, which the presence branch stored, and not with the object 7.
\<close>

theorem cached_value_after_presence_check:
  "truthy (read_global ''x'' (window x_present))
   \<and> outcome x_recorded
        (fst (loadScript x_present (JStr ''x'') (JStr ''/x.js'') (Some (read_global ''x''))))
       = Fulfilled (JObj 7)
   \<and> isLoaded x_recorded (JStr ''x'')
   \<and> doc_head (snd (loadScript x_recorded (JStr ''x'') (JStr ''/x.js'') None)) = []
   \<and> outcome (snd (loadScript x_recorded (JStr ''x'') (JStr ''/x.js'') None))
        (fst (loadScript x_recorded (JStr ''x'') (JStr ''/x.js'') None))
       = Fulfilled (JBool True)"
  by (simp add: x_recorded_def x_present_def loader_eval)

subsection \<open>isLoaded\<close>



subsection \<open>unload while a load is in flight\<close>

text \<open>
  C9. Let the \<open>k\<close>-th script, injected for \<open>name\<close>, not have reported yet. \<open>unload name\<close>
  leaves the script in the document head, waiting as before, and removes the name from
  both tables. When the script then loads, its handler records the name again:
  \<open>isLoaded name\<close> is true, and no script has been injected in between.
\<close>

theorem unload_in_flight_is_undone_by_onload:
  assumes "k < length (doc_head w)" "\<not> fired (doc_head w ! k)"
    and "lib_name (doc_head w ! k) = name"
  shows "let w1 = unload w name
         in doc_head w1 = doc_head w \<and> \<not> isLoaded w1 name \<and> loadingPromises w1 name = None
          \<and> isLoaded (script_onload w1 k) name
          \<and> length (doc_head (script_onload w1 k)) = length (doc_head w)"
  using assms by (simp add: unload_def Let_def isLoaded_def loaded_script_onload script_onload_def
      settle_def)

theorem unload_in_flight_is_undone_by_onload_witness:
  "0 < length (doc_head x_requested) \<and> \<not> fired (doc_head x_requested ! 0)
   \<and> lib_name (doc_head x_requested ! 0) = JStr ''x''
   \<and> \<not> isLoaded (unload x_requested (JStr ''x'')) (JStr ''x'')
   \<and> isLoaded (script_onload (unload x_requested (JStr ''x'')) 0) (JStr ''x'')
   \<and> length (doc_head (script_onload (unload x_requested (JStr ''x'')) 0)) = 1"
  using unload_in_flight_is_undone_by_onload [of 0 x_requested "JStr ''x''"]
  by (simp add: x_requested_def loader_eval)

subsection \<open>preload of a key that names no function\<close>

text \<open>
  C10. For a key that names no function-valued property of the loader, \<open>preload\<close> only
  schedules a callback: the tables, the promises, the document head and the globals are
  as before. When that callback runs, nothing is thrown and the world is exactly the one
  before the call of \<open>preload\<close>.
\<close>

theorem preload_of_unknown_key_does_nothing:
  assumes "method_of (to_string key) = None"
  shows "(let w1 = preload w key
          in loadedLibraries w1 = loadedLibraries w \<and> loadingPromises w1 = loadingPromises w
           \<and> promises w1 = promises w \<and> doc_head w1 = doc_head w \<and> window w1 = window w
           \<and> length (tasks w1) = Suc (length (tasks w))
           \<and> task_method (last (tasks w1)) = key)
         \<and> run_task (preload w key) (length (tasks w)) = (None, w)"
  using assms by (simp add: preload_def run_task_def load_callback_def nth_append)

theorem preload_of_unknown_key_does_nothing_witness:
  "method_of (to_string (JStr ''loadLodash'')) = None
   \<and> run_task (preload x_requested (JStr ''loadLodash'')) (length (tasks x_requested))
       = (None, x_requested)"
  using preload_of_unknown_key_does_nothing [of "JStr ''loadLodash''" x_requested]
  by (simp add: method_of_def object_prototype_functions_def)

section \<open>Properties of the event listener manager\<close>

subsection \<open>Keys are fresh\<close>

lemma show_nat_step:
  "show_nat n = (if n < 10 then [digit_char n] else show_nat (n div 10) @ [digit_char (n mod 10)])"
  by (rule show_nat.simps)

lemma digit_char_value: "d < 10 \<Longrightarrow> of_char (digit_char d) = 48 + d"
  by (simp add: digit_char_def)

lemma digit_char_not_underscore: "d < 10 \<Longrightarrow> digit_char d \<noteq> CHR ''_''"
proof
  assume d: "d < 10" and eq: "digit_char d = CHR ''_''"
  have "(of_char (digit_char d) :: nat) = 48 + d" using d by (rule digit_char_value)
  moreover have "(of_char (CHR ''_'') :: nat) = 95" by simp
  ultimately show False using eq d by simp
qed

lemma show_nat_no_underscore: "CHR ''_'' \<notin> set (show_nat n)"
proof (induction n rule: show_nat.induct)
  case (1 n)
  show ?case
  proof (cases "n < 10")
    case True
    then show ?thesis using digit_char_not_underscore [of n] by (subst show_nat_step) auto
  next
    case False
    then show ?thesis using 1 digit_char_not_underscore [of "n mod 10"]
      by (subst show_nat_step) auto
  qed
qed

lemma read_show_nat:
  "foldl (\<lambda>acc c. 10 * acc + (of_char c - 48)) 0 (show_nat n) = n"
proof (induction n rule: show_nat.induct)
  case (1 n)
  show ?case
  proof (cases "n < 10")
    case True
    then show ?thesis by (subst show_nat_step) (simp add: digit_char_value)
  next
    case False
    then show ?thesis using 1
      by (subst show_nat_step) (simp add: digit_char_value)
  qed
qed

lemma show_nat_inj:
  assumes "show_nat i = show_nat n"
  shows "i = n"
proof -
  have "i = foldl (\<lambda>acc c. 10 * acc + (of_char c - 48)) 0 (show_nat i)"
    by (simp only: read_show_nat)
  also have "\<dots> = foldl (\<lambda>acc c. 10 * acc + (of_char c - 48)) 0 (show_nat n)"
    by (simp only: assms)
  also have "\<dots> = n" by (simp only: read_show_nat)
  finally show ?thesis .
qed

lemma suffix_after_underscore:
  assumes "CHR ''_'' \<notin> set d"
  shows "rev (takeWhile (\<lambda>c. c \<noteq> CHR ''_'') (rev (a @ ''_'' @ d))) = d"
proof -
  have "takeWhile (\<lambda>c. c \<noteq> CHR ''_'') (rev d @ CHR ''_'' # rev a) = rev d"
    using assms by (auto simp: takeWhile_tail)
  then show ?thesis by simp
qed

lemma key_inj:
  assumes "a @ ''_'' @ show_nat i = b @ ''_'' @ show_nat n"
  shows "i = n"
proof -
  have "show_nat i = rev (takeWhile (\<lambda>c. c \<noteq> CHR ''_'') (rev (a @ ''_'' @ show_nat i)))"
    using show_nat_no_underscore by (rule suffix_after_underscore [symmetric])
  also have "\<dots> = show_nat n"
    unfolding assms using show_nat_no_underscore by (rule suffix_after_underscore)
  finally show ?thesis by (rule show_nat_inj)
qed

subsection \<open>The loops over the map as filters\<close>

lemma fold_registered:
  "fold (\<lambda>(k, val) acc. if matches ev h val then True else acc) kvs acc =
     (acc \<or> (\<exists>kv \<in> set kvs. matches ev h (snd kv)))"
  by (induction kvs arbitrary: acc) (auto split: prod.splits)

lemma map_set_fresh: "k \<notin> fst ` set kvs \<Longrightarrow> map_set k v kvs = kvs @ [(k, v)]"
  by (induction kvs) auto

lemma map_set_mem: "(k, v) \<in> set (map_set k v kvs)"
  by (induction kvs) auto

lemma remove_first_filter:
  assumes "distinct (map listener_key ls)"
  shows "remove_first (same_listener ty cb cap) ls = filter (\<lambda>l. \<not> same_listener ty cb cap l) ls"
  using assms
proof (induction ls)
  case Nil
  show ?case by simp
next
  case (Cons x xs)
  show ?case
  proof (cases "same_listener ty cb cap x")
    case True
    have "\<not> same_listener ty cb cap y" if "y \<in> set xs" for y
    proof
      assume "same_listener ty cb cap y"
      then have "listener_key y = listener_key x"
        using True by (simp add: same_listener_def listener_key_def)
      moreover have "listener_key x \<notin> listener_key ` set xs" using Cons.prems by simp
      ultimately show False using that by (metis imageI)
    qed
    then have "filter (\<lambda>l. \<not> same_listener ty cb cap l) xs = xs" by (simp add: filter_id_conv)
    then show ?thesis using True by simp
  next
    case False
    then show ?thesis using Cons by simp
  qed
qed

lemma removeEventListener_filter:
  "distinct (map listener_key ls) \<Longrightarrow>
   removeEventListener ls ty cb opts = filter (\<lambda>l. \<not> same_listener ty cb (capture_of opts) l) ls"
  by (simp add: removeEventListener_def remove_first_filter)

lemma distinct_keys_filter:
  "distinct (map listener_key ls) \<Longrightarrow> distinct (map listener_key (filter P ls))"
  by (rule distinct_map_filter)

lemma fold_detach_all:
  assumes "distinct (map listener_key ls)"
  shows "fold (\<lambda>(k, val) ls. removeEventListener ls (event val) (handler val) (options val)) kvs ls
         = filter (\<lambda>l. \<forall>kv \<in> set kvs. \<not> attached_for (snd kv) l) ls"
  using assms
proof (induction kvs arbitrary: ls)
  case Nil
  show ?case by simp
next
  case (Cons kv kvs)
  obtain k val where kv: "kv = (k, val)" by (cases kv)
  let ?ls1 = "filter (\<lambda>l. \<not> attached_for val l) ls"
  have one: "removeEventListener ls (event val) (handler val) (options val) = ?ls1"
    using Cons.prems by (simp add: removeEventListener_filter attached_for_def)
  have "distinct (map listener_key ?ls1)" using Cons.prems by (rule distinct_keys_filter)
  then have "fold (\<lambda>(k, val) ls. removeEventListener ls (event val) (handler val) (options val))
               kvs ?ls1 = filter (\<lambda>l. \<forall>kv \<in> set kvs. \<not> attached_for (snd kv) l) ?ls1"
    by (rule Cons.IH)
  then show ?case by (simp add: kv one conj_commute)
qed

lemma fold_detach_matching:
  assumes "distinct (map listener_key ls)"
  shows "fold (\<lambda>(k, val) (ls, ks).
                 if matches ev h val
                 then (removeEventListener ls ev h (options val), ks @ [k])
                 else (ls, ks)) kvs (ls, ks0)
         = (filter (\<lambda>l. \<forall>kv \<in> set kvs. matches ev h (snd kv) \<longrightarrow>
                       \<not> same_listener ev h (capture_of (options (snd kv))) l) ls,
            ks0 @ map fst (filter (\<lambda>kv. matches ev h (snd kv)) kvs))"
  using assms
proof (induction kvs arbitrary: ls ks0)
  case Nil
  show ?case by simp
next
  case (Cons kv kvs)
  obtain k val where kv: "kv = (k, val)" by (cases kv)
  show ?case
  proof (cases "matches ev h val")
    case True
    let ?ls1 = "filter (\<lambda>l. \<not> same_listener ev h (capture_of (options val)) l) ls"
    have one: "removeEventListener ls ev h (options val) = ?ls1"
      using Cons.prems by (simp add: removeEventListener_filter)
    have "distinct (map listener_key ?ls1)" using Cons.prems by (rule distinct_keys_filter)
    note Cons.IH [OF this, of "ks0 @ [k]"]
    then show ?thesis using True by (simp add: kv one conj_commute)
  next
    case False
    then show ?thesis using Cons.IH [OF Cons.prems, of ks0] by (simp add: kv)
  qed
qed

lemma fold_map_delete: "fold map_delete ks kvs = filter (\<lambda>kv. fst kv \<notin> set ks) kvs"
  by (induction ks arbitrary: kvs) (auto simp: map_delete_def intro: filter_cong)

lemma delete_matching_keys:
  assumes "distinct (map fst kvs)"
  shows "filter (\<lambda>kv. fst kv \<notin> set (map fst (filter P kvs))) kvs = filter (\<lambda>kv. \<not> P kv) kvs"
proof (rule filter_cong [OF refl])
  fix kv assume kv: "kv \<in> set kvs"
  have "fst kv \<in> fst ` {x \<in> set kvs. P x} \<longleftrightarrow> P kv"
  proof
    assume "fst kv \<in> fst ` {x \<in> set kvs. P x}"
    then obtain x where x: "x \<in> set kvs" "P x" "fst x = fst kv" by auto
    then have "x = kv" using assms kv by (metis distinct_map inj_on_def)
    then show "P kv" using x by simp
  next
    assume "P kv"
    then show "fst kv \<in> fst ` {x \<in> set kvs. P x}" using kv by auto
  qed
  then show "(fst kv \<notin> set (map fst (filter P kvs))) = (\<not> P kv)" by simp
qed

subsection \<open>The operations in closed form\<close>

lemma add_element:
  "add m (Element e) ev h opts_arg =
     (if \<exists>kv \<in> set (tracked_of m e). matches ev h (snd kv)
      then m\<lparr>elementListeners := (elementListeners m)(e \<mapsto> tracked_of m e),
             listenerId := Suc (listenerId m)\<rparr>
      else m\<lparr>elementListeners := (elementListeners m)
               (e \<mapsto> map_set (ev @ ''_'' @ show_nat (listenerId m))
                        \<lparr>event = ev, handler = h, options = options_of opts_arg\<rparr>
                        (tracked_of m e)),
             listenerId := Suc (listenerId m),
             dom_listeners := (dom_listeners m)
               (e := addEventListener (dom_listeners m e) ev h (options_of opts_arg))\<rparr>)"
proof (cases "elementListeners m e")
  case None
  then show ?thesis by (simp add: add_def Let_def fold_registered tracked_of_def options_of_def)
next
  case (Some kvs)
  then show ?thesis
    by (simp add: add_def Let_def fold_registered tracked_of_def options_of_def split_beta)
qed

lemma remove_element:
  assumes "elementListeners m e = Some kvs"
    and "distinct (map listener_key (dom_listeners m e))" "distinct (map fst kvs)"
  shows "remove m (Element e) ev h =
     m\<lparr>dom_listeners := (dom_listeners m)
         (e := filter (\<lambda>l. \<forall>kv \<in> set kvs. matches ev h (snd kv) \<longrightarrow>
                         \<not> same_listener ev h (capture_of (options (snd kv))) l)
                 (dom_listeners m e)),
       elementListeners := (elementListeners m)
         (e \<mapsto> filter (\<lambda>kv. \<not> matches ev h (snd kv)) kvs)\<rparr>"
proof -
  let ?ks = "map fst (filter (\<lambda>kv. matches ev h (snd kv)) kvs)"
  have keys: "fold map_delete ?ks kvs = filter (\<lambda>kv. \<not> matches ev h (snd kv)) kvs"
    unfolding fold_map_delete using assms(3) by (rule delete_matching_keys)
  have loop: "fold (\<lambda>(k, val) (ls, ks).
                 if matches ev h val
                 then (removeEventListener ls ev h (options val), ks @ [k])
                 else (ls, ks)) kvs (dom_listeners m e, [])
         = (filter (\<lambda>l. \<forall>kv \<in> set kvs. matches ev h (snd kv) \<longrightarrow>
                       \<not> same_listener ev h (capture_of (options (snd kv))) l) (dom_listeners m e),
            ?ks)"
    using fold_detach_matching [OF assms(2), of ev h kvs "[]"] by simp
  show ?thesis
    unfolding remove_def
    apply (simp only: element_ref.case assms(1) option.case loop prod.case Let_def keys)
    apply simp
    done
qed

lemma removeAllForElement_element:
  assumes "elementListeners m e = Some kvs"
    and "distinct (map listener_key (dom_listeners m e))"
  shows "removeAllForElement m (Element e) =
     m\<lparr>dom_listeners := (dom_listeners m)
         (e := filter (\<lambda>l. \<forall>kv \<in> set kvs. \<not> attached_for (snd kv) l) (dom_listeners m e)),
       elementListeners := (elementListeners m)(e := None)\<rparr>"
  using assms by (simp add: removeAllForElement_def fold_detach_all)

subsection \<open>Every reachable manager is well formed\<close>

lemma element_ok_D:
  assumes "element_ok n (Some kvs) ls"
  shows "distinct (map fst kvs)"
    and "\<And>kv. kv \<in> set kvs \<Longrightarrow> \<exists>i < n. fst kv = event (snd kv) @ ''_'' @ show_nat i"
    and "distinct (map (\<lambda>kv. (event (snd kv), handler (snd kv))) kvs)"
    and "\<And>l. l \<in> set ls \<Longrightarrow> \<exists>kv \<in> set kvs. attached_for (snd kv) l"
    and "distinct (map listener_key ls)"
    and "\<And>kv. kv \<in> set kvs \<Longrightarrow> \<not> once_of (options (snd kv)) \<Longrightarrow>
           \<exists>l \<in> set ls. attached_for (snd kv) l \<and> \<not> l_once l"
  using assms by (auto simp: element_ok_def)

lemma element_ok_mono: "n \<le> n' \<Longrightarrow> element_ok n t ls \<Longrightarrow> element_ok n' t ls"
proof (cases t)
  case None
  assume "element_ok n t ls"
  then show ?thesis by (simp add: element_ok_def None)
next
  case (Some kvs)
  assume le: "n \<le> n'" and ok: "element_ok n t ls"
  have "\<exists>i < n'. fst kv = event (snd kv) @ ''_'' @ show_nat i" if "kv \<in> set kvs" for kv
  proof -
    have "element_ok n (Some kvs) ls" using ok by (simp add: Some)
    from element_ok_D(2) [OF this that]
    obtain i where "i < n" "fst kv = event (snd kv) @ ''_'' @ show_nat i" by blast
    then show ?thesis using le by (intro exI [of _ i]) simp
  qed
  then show ?thesis using ok by (simp add: element_ok_def Some)
qed

lemma manager_ok_D: "manager_ok m \<Longrightarrow> element_ok (listenerId m) (elementListeners m e) (dom_listeners m e)"
  by (simp add: manager_ok_def)

lemma manager_ok_tracked:
  assumes "manager_ok m"
  shows "element_ok (listenerId m) (Some (tracked_of m e)) (dom_listeners m e)"
proof (cases "elementListeners m e")
  case None
  then have "dom_listeners m e = []" using manager_ok_D [OF assms, of e] by (simp add: element_ok_def)
  then show ?thesis using None by (simp add: tracked_of_def element_ok_def)
next
  case (Some kvs)
  then show ?thesis using manager_ok_D [OF assms, of e] by (simp add: tracked_of_def)
qed

lemma manager_ok_new: "manager_ok new_manager"
  by (simp add: manager_ok_def new_manager_def element_ok_def)

lemma fresh_key:
  assumes "element_ok n (Some kvs) ls"
  shows "ev @ ''_'' @ show_nat n \<notin> fst ` set kvs"
proof
  assume "ev @ ''_'' @ show_nat n \<in> fst ` set kvs"
  then obtain kv where kv: "kv \<in> set kvs" "fst kv = ev @ ''_'' @ show_nat n" by auto
  obtain i where i: "i < n" "fst kv = event (snd kv) @ ''_'' @ show_nat i"
    using element_ok_D(2) [OF assms kv(1)] by auto
  have "i = n" using kv(2) i(2) by (intro key_inj [of "event (snd kv)" i ev n]) simp
  then show False using i(1) by simp
qed

lemma not_attached_if_unregistered:
  assumes "element_ok n (Some kvs) ls" "\<not> (\<exists>kv \<in> set kvs. matches ev h (snd kv))"
    and "l \<in> set ls"
  shows "\<not> (l_type l = ev \<and> l_callback l = h)"
proof
  assume l: "l_type l = ev \<and> l_callback l = h"
  obtain kv where kv: "kv \<in> set kvs" "attached_for (snd kv) l"
    using element_ok_D(4) [OF assms(1,3)] by auto
  then have "matches ev h (snd kv)" using l by (simp add: attached_for_def same_listener_def matches_def)
  then show False using assms(2) kv(1) by auto
qed

lemma element_ok_add_new:
  assumes ok: "element_ok n (Some kvs) ls"
    and new: "\<not> (\<exists>kv \<in> set kvs. matches ev h (snd kv))"
  shows "element_ok (Suc n)
           (Some (map_set (ev @ ''_'' @ show_nat n) \<lparr>event = ev, handler = h, options = opts\<rparr> kvs))
           (addEventListener ls ev h opts)"
proof -
  let ?key = "ev @ ''_'' @ show_nat n"
  let ?val = "\<lparr>event = ev, handler = h, options = opts\<rparr>"
  let ?l = "\<lparr>l_type = ev, l_callback = h, l_capture = capture_of opts,
             l_once = once_of opts, l_passive = passive_of opts\<rparr>"
  have fresh: "?key \<notin> fst ` set kvs" using ok by (rule fresh_key)
  have kvs': "map_set ?key ?val kvs = kvs @ [(?key, ?val)]" using fresh by (rule map_set_fresh)
  have none: "\<not> (l_type l = ev \<and> l_callback l = h)" if "l \<in> set ls" for l
    using ok new that by (rule not_attached_if_unregistered)
  then have "\<not> list_ex (same_listener ev h (capture_of opts)) ls"
    by (auto simp: list_ex_iff same_listener_def)
  then have ls': "addEventListener ls ev h opts = ls @ [?l]" by (simp add: addEventListener_def)
  have a: "distinct (map fst (kvs @ [(?key, ?val)]))"
    using element_ok_D(1) [OF ok] fresh by simp
  have b: "\<exists>i < Suc n. fst kv = event (snd kv) @ ''_'' @ show_nat i"
    if "kv \<in> set (kvs @ [(?key, ?val)])" for kv
  proof (cases "kv = (?key, ?val)")
    case True
    then show ?thesis by auto
  next
    case False
    then have "kv \<in> set kvs" using that by simp
    then show ?thesis using element_ok_D(2) [OF ok] less_Suc_eq by blast
  qed
  have "(ev, h) \<notin> (\<lambda>kv. (event (snd kv), handler (snd kv))) ` set kvs"
    using new by (auto simp: matches_def)
  then have c: "distinct (map (\<lambda>kv. (event (snd kv), handler (snd kv))) (kvs @ [(?key, ?val)]))"
    using element_ok_D(3) [OF ok] by simp
  have d: "\<exists>kv \<in> set (kvs @ [(?key, ?val)]). attached_for (snd kv) l" if "l \<in> set (ls @ [?l])" for l
  proof (cases "l = ?l")
    case True
    then show ?thesis by (simp add: attached_for_def same_listener_def)
  next
    case False
    then have "l \<in> set ls" using that by simp
    then show ?thesis using element_ok_D(4) [OF ok] by auto
  qed
  have "listener_key ?l \<notin> listener_key ` set ls"
    using none by (auto simp: listener_key_def)
  then have e: "distinct (map listener_key (ls @ [?l]))"
    using element_ok_D(5) [OF ok] by simp
  have f: "\<exists>l \<in> set (ls @ [?l]). attached_for (snd kv) l \<and> \<not> l_once l"
    if kvin: "kv \<in> set (kvs @ [(?key, ?val)])" and keep: "\<not> once_of (options (snd kv))" for kv
  proof (cases "kv = (?key, ?val)")
    case True
    then have "attached_for (snd kv) ?l \<and> \<not> l_once ?l"
      using keep by (simp add: attached_for_def same_listener_def)
    then show ?thesis by auto
  next
    case False
    then have "kv \<in> set kvs" using kvin by simp
    then show ?thesis using element_ok_D(6) [OF ok _ keep] by auto
  qed
  show ?thesis
    unfolding kvs' ls' element_ok_def using a b c d e f by simp
qed

lemma manager_ok_add:
  assumes "manager_ok m"
  shows "manager_ok (add m element ev h opts_arg)"
proof (cases element)
  case (Element e)
  have ok: "element_ok (listenerId m) (Some (tracked_of m e)) (dom_listeners m e)"
    using assms by (rule manager_ok_tracked)
  have others: "element_ok (Suc (listenerId m)) (elementListeners m e') (dom_listeners m e')" for e'
    using manager_ok_D [OF assms, of e'] by (rule element_ok_mono [rotated]) simp
  show ?thesis
  proof (cases "\<exists>kv \<in> set (tracked_of m e). matches ev h (snd kv)")
    case True
    have "element_ok (Suc (listenerId m)) (Some (tracked_of m e)) (dom_listeners m e)"
      using ok by (rule element_ok_mono [rotated]) simp
    then show ?thesis using True others by (simp add: Element add_element manager_ok_def)
  next
    case False
    note element_ok_add_new [OF ok False, of "options_of opts_arg"]
    then show ?thesis using False others by (simp add: Element add_element manager_ok_def)
  qed
qed (simp_all add: add_def assms)

lemma element_ok_dispatch:
  assumes "element_ok n t ls"
  shows "element_ok n t (filter (\<lambda>l. \<not> (l_type l = ty \<and> l_once l)) ls)"
proof (cases t)
  case None
  then show ?thesis using assms by (simp add: element_ok_def)
next
  case (Some kvs)
  have ok: "element_ok n (Some kvs) ls" using assms Some by simp
  let ?ls' = "filter (\<lambda>l. \<not> (l_type l = ty \<and> l_once l)) ls"
  have d: "\<exists>kv \<in> set kvs. attached_for (snd kv) l" if "l \<in> set ?ls'" for l
    using element_ok_D(4) [OF ok, of l] that by simp
  have e: "distinct (map listener_key ?ls')"
    using element_ok_D(5) [OF ok] by (rule distinct_map_filter)
  have f: "\<exists>l \<in> set ?ls'. attached_for (snd kv) l \<and> \<not> l_once l"
    if kvin: "kv \<in> set kvs" and keep: "\<not> once_of (options (snd kv))" for kv
  proof -
    obtain l where "l \<in> set ls" "attached_for (snd kv) l" "\<not> l_once l"
      using element_ok_D(6) [OF ok kvin keep] by auto
    then have "l \<in> set ?ls' \<and> attached_for (snd kv) l \<and> \<not> l_once l" by simp
    then show ?thesis by auto
  qed
  show ?thesis
    unfolding Some element_ok_def
    using element_ok_D(1) [OF ok] element_ok_D(2) [OF ok] element_ok_D(3) [OF ok] d e f by simp
qed

lemma element_ok_remove:
  assumes ok: "element_ok n (Some kvs) ls"
  shows "element_ok n (Some (filter (\<lambda>kv. \<not> matches ev h (snd kv)) kvs))
           (filter (\<lambda>l. \<forall>kv \<in> set kvs. matches ev h (snd kv) \<longrightarrow>
                         \<not> same_listener ev h (capture_of (options (snd kv))) l) ls)"
proof -
  let ?kvs' = "filter (\<lambda>kv. \<not> matches ev h (snd kv)) kvs"
  let ?ls' = "filter (\<lambda>l. \<forall>kv \<in> set kvs. matches ev h (snd kv) \<longrightarrow>
                         \<not> same_listener ev h (capture_of (options (snd kv))) l) ls"
  have a: "distinct (map fst ?kvs')" using element_ok_D(1) [OF ok] by (rule distinct_map_filter)
  have b: "\<exists>i < n. fst kv = event (snd kv) @ ''_'' @ show_nat i" if "kv \<in> set ?kvs'" for kv
    using element_ok_D(2) [OF ok, of kv] that by simp
  have c: "distinct (map (\<lambda>kv. (event (snd kv), handler (snd kv))) ?kvs')"
    using element_ok_D(3) [OF ok] by (rule distinct_map_filter)
  have d: "\<exists>kv \<in> set ?kvs'. attached_for (snd kv) l" if "l \<in> set ?ls'" for l
  proof -
    have l: "l \<in> set ls" using that by simp
    obtain kv where kv: "kv \<in> set kvs" "attached_for (snd kv) l"
      using element_ok_D(4) [OF ok l] by auto
    have "\<not> matches ev h (snd kv)"
    proof
      assume m: "matches ev h (snd kv)"
      then have "\<not> same_listener ev h (capture_of (options (snd kv))) l" using that kv(1) by simp
      then show False using kv(2) m by (simp add: attached_for_def matches_def)
    qed
    then have "kv \<in> set ?kvs'" using kv(1) by simp
    then show ?thesis using kv(2) by (rule rev_bexI)
  qed
  have e: "distinct (map listener_key ?ls')" using element_ok_D(5) [OF ok] by (rule distinct_map_filter)
  have f: "\<exists>l \<in> set ?ls'. attached_for (snd kv) l \<and> \<not> l_once l"
    if kvin: "kv \<in> set ?kvs'" and keep: "\<not> once_of (options (snd kv))" for kv
  proof -
    have kv: "kv \<in> set kvs" "\<not> matches ev h (snd kv)" using kvin by simp_all
    obtain l where l: "l \<in> set ls" "attached_for (snd kv) l" "\<not> l_once l"
      using element_ok_D(6) [OF ok kv(1) keep] by auto
    have "\<not> (l_type l = ev \<and> l_callback l = h)"
      using l(2) kv(2) by (auto simp: attached_for_def same_listener_def matches_def)
    then have "l \<in> set ?ls'" using l(1) by (auto simp: same_listener_def)
    then show ?thesis using l(2,3) by auto
  qed
  show ?thesis unfolding element_ok_def using a b c d e f by simp
qed

lemma detached_all:
  assumes ok: "element_ok n (Some kvs) ls"
  shows "filter (\<lambda>l. \<forall>kv \<in> set kvs. \<not> attached_for (snd kv) l) ls = []"
  using element_ok_D(4) [OF ok] by (auto simp: filter_empty_conv)

lemma manager_ok_remove:
  assumes "manager_ok m"
  shows "manager_ok (remove m element ev h)"
proof (cases element)
  case (Element e)
  show ?thesis
  proof (cases "elementListeners m e")
    case None
    then show ?thesis using assms by (simp add: Element remove_def)
  next
    case (Some kvs)
    have ok: "element_ok (listenerId m) (Some kvs) (dom_listeners m e)"
      using manager_ok_D [OF assms, of e] Some by simp
    have eq: "remove m (Element e) ev h =
       m\<lparr>dom_listeners := (dom_listeners m)
         (e := filter (\<lambda>l. \<forall>kv \<in> set kvs. matches ev h (snd kv) \<longrightarrow>
                         \<not> same_listener ev h (capture_of (options (snd kv))) l)
                 (dom_listeners m e)),
       elementListeners := (elementListeners m)
         (e \<mapsto> filter (\<lambda>kv. \<not> matches ev h (snd kv)) kvs)\<rparr>"
      using Some element_ok_D(5) [OF ok] element_ok_D(1) [OF ok] by (rule remove_element)
    show ?thesis
      unfolding Element eq using element_ok_remove [OF ok, of ev h] manager_ok_D [OF assms]
      by (simp add: manager_ok_def)
  qed
qed (simp_all add: remove_def assms)

lemma manager_ok_removeAllForElement:
  assumes "manager_ok m"
  shows "manager_ok (removeAllForElement m element)"
proof (cases element)
  case (Element e)
  show ?thesis
  proof (cases "elementListeners m e")
    case None
    then show ?thesis using assms by (simp add: Element removeAllForElement_def)
  next
    case (Some kvs)
    have ok: "element_ok (listenerId m) (Some kvs) (dom_listeners m e)"
      using manager_ok_D [OF assms, of e] Some by simp
    have eq: "removeAllForElement m (Element e) =
       m\<lparr>dom_listeners := (dom_listeners m)(e := []),
         elementListeners := (elementListeners m)(e := None)\<rparr>"
      using removeAllForElement_element [OF Some element_ok_D(5) [OF ok]] detached_all [OF ok]
      by simp
    show ?thesis
      unfolding Element eq using manager_ok_D [OF assms]
      by (simp add: manager_ok_def element_ok_def)
  qed
qed (simp_all add: removeAllForElement_def assms)

lemma manager_ok_dispatch:
  assumes "manager_ok m"
  shows "manager_ok (snd (dispatch m e ty))"
proof -
  have "element_ok (listenerId (snd (dispatch m e ty))) (elementListeners (snd (dispatch m e ty)) e')
          (dom_listeners (snd (dispatch m e ty)) e')" for e'
  proof (cases "e' = e")
    case True
    have "element_ok (listenerId m) (elementListeners m e)
            (filter (\<lambda>l. \<not> (l_type l = ty \<and> l_once l)) (dom_listeners m e))"
      using manager_ok_D [OF assms] by (rule element_ok_dispatch)
    then show ?thesis by (simp add: dispatch_def True del: de_Morgan_conj)
  next
    case False
    then show ?thesis using manager_ok_D [OF assms, of e'] by (simp add: dispatch_def)
  qed
  then show ?thesis by (simp add: manager_ok_def)
qed

lemma manager_ok_apply_op: "manager_ok m \<Longrightarrow> manager_ok (apply_op m op)"
  by (cases op) (simp_all add: manager_ok_add manager_ok_remove manager_ok_removeAllForElement
      manager_ok_dispatch removeAll_def)

lemma manager_ok_foldl: "manager_ok m \<Longrightarrow> manager_ok (foldl apply_op m ops)"
  by (induction ops arbitrary: m) (simp_all add: manager_ok_apply_op)

lemma manager_ok_exec: "manager_ok (exec ops)"
  by (simp add: exec_def manager_ok_foldl manager_ok_new)

lemma manager_ok_after_events: "manager_ok m \<Longrightarrow> manager_ok (after_events m evs)"
  unfolding after_events_def
  by (induction evs arbitrary: m) (auto simp: manager_ok_dispatch)

subsection \<open>Counting registrations and invocations\<close>

lemma at_most_one:
  assumes "distinct (map f xs)" "\<forall>x \<in> set xs. P x \<longrightarrow> f x = a"
  shows "length (filter P xs) \<le> 1"
  using assms
proof (induction xs)
  case Nil
  show ?case by simp
next
  case (Cons x xs)
  show ?case
  proof (cases "P x")
    case True
    have "\<not> P y" if "y \<in> set xs" for y
    proof
      assume "P y"
      then have "f y = f x" using Cons.prems(2) True that by simp
      moreover have "f x \<notin> f ` set xs" using Cons.prems(1) by simp
      ultimately show False using that by (metis imageI)
    qed
    then have "filter P xs = []" by (simp add: filter_empty_conv)
    then show ?thesis using True by simp
  next
    case False
    then show ?thesis using Cons by simp
  qed
qed

lemma at_least_one: "x \<in> set xs \<Longrightarrow> P x \<Longrightarrow> 1 \<le> length (filter P xs)"
  by (induction xs) auto

lemma count_fired:
  "count_list (map l_callback (filter (\<lambda>l. l_type l = ty \<and> l_capture l) ls
                               @ filter (\<lambda>l. l_type l = ty \<and> \<not> l_capture l) ls)) h =
     length (filter (\<lambda>l. l_type l = ty \<and> l_callback l = h) ls)"
  by (induction ls) auto

lemma fired_count:
  "count_list (fst (dispatch m e ty)) h =
     length (filter (\<lambda>l. l_type l = ty \<and> l_callback l = h) (dom_listeners m e))"
  by (simp only: dispatch_def fst_conv count_fired)

lemma registrations_tracked:
  "registrations m e ev h = length (filter (\<lambda>kv. matches ev h (snd kv)) (tracked_of m e))"
  by (cases "elementListeners m e")
     (simp_all add: registrations_def entries_def tracked_of_def filter_map comp_def)

lemma registrations_le_1:
  assumes "manager_ok m"
  shows "registrations m e ev h \<le> 1"
proof -
  have ok: "element_ok (listenerId m) (Some (tracked_of m e)) (dom_listeners m e)"
    using assms by (rule manager_ok_tracked)
  show ?thesis
    unfolding registrations_tracked
    using element_ok_D(3) [OF ok]
    by (rule at_most_one [where a = "(ev, h)"]) (simp add: matches_def)
qed

lemma fired_le_1:
  assumes "manager_ok m"
  shows "count_list (fst (dispatch m e ev)) h \<le> 1"
proof -
  let ?kvs = "tracked_of m e"
  let ?ls = "dom_listeners m e"
  let ?P = "\<lambda>l. l_type l = ev \<and> l_callback l = h"
  have ok: "element_ok (listenerId m) (Some ?kvs) ?ls"
    using assms by (rule manager_ok_tracked)
  show ?thesis
  proof (cases "\<exists>kv \<in> set ?kvs. matches ev h (snd kv)")
    case False
    have "\<not> ?P l" if "l \<in> set ?ls" for l
      using ok False that by (rule not_attached_if_unregistered)
    then have "filter ?P ?ls = []" by (simp add: filter_empty_conv)
    then show ?thesis by (simp add: fired_count)
  next
    case True
    then obtain kv0 where kv0: "kv0 \<in> set ?kvs" "matches ev h (snd kv0)" by auto
    have key: "listener_key l = (ev, h, capture_of (options (snd kv0)))"
      if l: "l \<in> set ?ls" "?P l" for l
    proof -
      obtain kv where kv: "kv \<in> set ?kvs" "attached_for (snd kv) l"
        using element_ok_D(4) [OF ok l(1)] by auto
      have "(event (snd kv), handler (snd kv)) = (event (snd kv0), handler (snd kv0))"
        using kv(2) l(2) kv0(2) by (simp add: attached_for_def same_listener_def matches_def)
      then have "kv = kv0"
        using element_ok_D(3) [OF ok] kv(1) kv0(1) by (simp add: distinct_map inj_on_def)
      then show ?thesis
        using kv(2) l(2) by (simp add: listener_key_def attached_for_def same_listener_def)
    qed
    have "length (filter ?P ?ls) \<le> 1"
      using element_ok_D(5) [OF ok]
      by (rule at_most_one [where a = "(ev, h, capture_of (options (snd kv0)))"]) (simp add: key)
    then show ?thesis by (simp add: fired_count)
  qed
qed

lemma tracked_after_add:
  "\<exists>kv \<in> set (tracked_of (add m (Element e) ev h opts_arg) e). matches ev h (snd kv)"
proof (cases "\<exists>kv \<in> set (tracked_of m e). matches ev h (snd kv)")
  case True
  then show ?thesis by (simp add: add_element tracked_of_def)
next
  case False
  let ?key = "ev @ ''_'' @ show_nat (listenerId m)"
  let ?val = "\<lparr>event = ev, handler = h, options = options_of opts_arg\<rparr>"
  have "(?key, ?val) \<in> set (map_set ?key ?val (tracked_of m e))" by (rule map_set_mem)
  moreover have "matches ev h ?val" by (simp add: matches_def)
  ultimately show ?thesis using False
    by (simp add: add_element) (force simp: tracked_of_def)
qed

lemma tracked_some_after_add:
  "elementListeners (add m (Element e) ev h opts_arg) e
     = Some (tracked_of (add m (Element e) ev h opts_arg) e)"
  by (simp add: add_element tracked_of_def)

lemma add_again:
  assumes "\<exists>kv \<in> set (tracked_of m e). matches ev h (snd kv)"
    and "elementListeners m e = Some (tracked_of m e)"
  shows "add m (Element e) ev h opts_arg = m\<lparr>listenerId := Suc (listenerId m)\<rparr>"
proof -
  have "(elementListeners m)(e \<mapsto> tracked_of m e) = elementListeners m"
    using assms(2) by (simp add: fun_upd_idem)
  then show ?thesis using assms(1) by (simp add: add_element)
qed

lemma registrations_ge_1:
  assumes "\<exists>kv \<in> set (tracked_of m e). matches ev h (snd kv)"
  shows "1 \<le> registrations m e ev h"
proof -
  obtain kv where "kv \<in> set (tracked_of m e)" "matches ev h (snd kv)" using assms by auto
  then show ?thesis unfolding registrations_tracked by (rule at_least_one)
qed

lemma survives_dispatch:
  "l \<in> set (dom_listeners m e) \<Longrightarrow> \<not> l_once l \<Longrightarrow> l \<in> set (dom_listeners (snd (dispatch m e' ty)) e)"
  by (auto simp: dispatch_def)

lemma survives_events:
  "l \<in> set (dom_listeners m e) \<Longrightarrow> \<not> l_once l \<Longrightarrow> l \<in> set (dom_listeners (after_events m evs) e)"
  unfolding after_events_def
proof (induction evs arbitrary: m)
  case Nil
  then show ?case by simp
next
  case (Cons ev evs)
  obtain e' ty where ev: "ev = (e', ty)" by (cases ev)
  have "l \<in> set (dom_listeners (snd (dispatch m e' ty)) e)"
    using Cons.prems by (rule survives_dispatch)
  then show ?case using Cons.IH Cons.prems(2) by (simp add: ev)
qed

lemma unregistered:
  "registrations m e ev h = 0 \<Longrightarrow> \<not> (\<exists>kv \<in> set (tracked_of m e). matches ev h (snd kv))"
  by (auto simp: registrations_tracked filter_empty_conv)

lemma new_listener_attached:
  assumes "manager_ok m" "registrations m e ev h = 0"
  shows "\<lparr>l_type = ev, l_callback = h, l_capture = capture_of (options_of opts_arg),
          l_once = once_of (options_of opts_arg), l_passive = passive_of (options_of opts_arg)\<rparr>
         \<in> set (dom_listeners (add m (Element e) ev h opts_arg) e)"
proof -
  have ok: "element_ok (listenerId m) (Some (tracked_of m e)) (dom_listeners m e)"
    using assms(1) by (rule manager_ok_tracked)
  have new: "\<not> (\<exists>kv \<in> set (tracked_of m e). matches ev h (snd kv))"
    using assms(2) by (rule unregistered)
  have "\<not> (l_type l = ev \<and> l_callback l = h)" if "l \<in> set (dom_listeners m e)" for l
    using ok new that by (rule not_attached_if_unregistered)
  then have "\<not> list_ex (same_listener ev h (capture_of (options_of opts_arg))) (dom_listeners m e)"
    by (auto simp: list_ex_iff same_listener_def)
  then show ?thesis using new by (simp add: add_element addEventListener_def)
qed

lemma fired_once:
  assumes "manager_ok m" "l \<in> set (dom_listeners m e)" "l_type l = ev" "l_callback l = h"
  shows "count_list (fst (dispatch m e ev)) h = 1"
proof -
  have "1 \<le> length (filter (\<lambda>l. l_type l = ev \<and> l_callback l = h) (dom_listeners m e))"
    using assms(2) by (rule at_least_one) (simp add: assms(3,4))
  then have "1 \<le> count_list (fst (dispatch m e ev)) h" by (simp add: fired_count)
  then show ?thesis using fired_le_1 [OF assms(1), of e ev h] by simp
qed

lemma show_nat_small:
  "show_nat 0 = ''0''" "show_nat 1 = ''1''" "show_nat 2 = ''2''" "show_nat 3 = ''3''"
  by code_simp+

lemmas manager_eval =
  exec_def new_manager_def add_def remove_def removeAllForElement_def dispatch_def
  after_events_def registrations_def entries_def matches_def options_of_def
  addEventListener_def removeEventListener_def same_listener_def map_delete_def Let_def
  show_nat_small

lemma no_listeners_after_events:
  "dom_listeners m e = [] \<Longrightarrow> dom_listeners (after_events m evs) e = []"
  unfolding after_events_def
proof (induction evs arbitrary: m)
  case Nil
  then show ?case by simp
next
  case (Cons ev evs)
  obtain e' ty where ev: "ev = (e', ty)" by (cases ev)
  have "dom_listeners (snd (dispatch m e' ty)) e = []"
    using Cons.prems by (auto simp: dispatch_def)
  then show ?case using Cons.IH by (simp add: ev)
qed

subsection \<open>Idempotent registration\<close>

text \<open>
  C5, as the claim states it, fails: the handler does not run exactly once for every
  event. Registered twice with the \<^verbatim>\<open>once\<close> flag, handler 5 runs once for the first
  click and not at all for the second, as the flag asks.
\<close>

theorem once_listener_counterexample:
  "fst (dispatch
         (add (add new_manager (Element 1) ''click'' 5 (Some (Options False True False)))
            (Element 1) ''click'' 5 (Some (Options False True False)))
         1 ''click'') = [5]
   \<and> fst (dispatch
         (snd (dispatch
            (add (add new_manager (Element 1) ''click'' 5 (Some (Options False True False)))
               (Element 1) ''click'' 5 (Some (Options False True False)))
            1 ''click''))
         1 ''click'') = []"
  by (simp add: manager_eval)

text \<open>
  C5, amended. In a page that touches listeners only through the manager, whatever was
  done before (\<open>ops\<close>): the manager holds at most one entry for an element, event type
  and handler. After \<open>add\<close> for such a triple there is exactly one. A second \<open>add\<close>
  for the triple, with any options, changes neither the entries nor the listener list of
  any element (it only advances the key counter), so there is still exactly one. An event
  of that type at the element then invokes the handler at most once; exactly once when the
  first \<open>add\<close> made a new registration; and exactly once for every later event as well
  when the registration is without the \<^verbatim>\<open>once\<close> flag.
\<close>

theorem add_twice_registers_once:
  "let m = exec ops;
       m1 = add m (Element e) ev h opts1;
       m2 = add m1 (Element e) ev h opts2
   in registrations m e ev h \<le> 1
    \<and> registrations m1 e ev h = 1
    \<and> elementListeners m2 = elementListeners m1
    \<and> dom_listeners m2 = dom_listeners m1
    \<and> listenerId m2 = Suc (listenerId m1)
    \<and> registrations m2 e ev h = 1
    \<and> count_list (fst (dispatch m2 e ev)) h \<le> 1
    \<and> (registrations m e ev h = 0 \<longrightarrow> count_list (fst (dispatch m2 e ev)) h = 1)
    \<and> (registrations m e ev h = 0 \<and> \<not> once_of (options_of opts1) \<longrightarrow>
         (\<forall>evs. count_list (fst (dispatch (after_events m2 evs) e ev)) h = 1))
    \<and> (\<forall>val \<in> set (entries m2 e). matches ev h val \<and> \<not> once_of (options val) \<longrightarrow>
         (\<forall>evs. count_list (fst (dispatch (after_events m2 evs) e ev)) h = 1))"
proof -
  let ?m = "exec ops"
  let ?m1 = "add ?m (Element e) ev h opts1"
  let ?m2 = "add ?m1 (Element e) ev h opts2"
  let ?l = "\<lparr>l_type = ev, l_callback = h, l_capture = capture_of (options_of opts1),
          l_once = once_of (options_of opts1), l_passive = passive_of (options_of opts1)\<rparr>"
  have ok: "manager_ok ?m" by (rule manager_ok_exec)
  then have ok1: "manager_ok ?m1" by (rule manager_ok_add)
  then have ok2: "manager_ok ?m2" by (rule manager_ok_add)
  have reg1: "\<exists>kv \<in> set (tracked_of ?m1 e). matches ev h (snd kv)" by (rule tracked_after_add)
  have m2: "?m2 = ?m1\<lparr>listenerId := Suc (listenerId ?m1)\<rparr>"
    using reg1 tracked_some_after_add by (rule add_again)
  have a: "registrations ?m e ev h \<le> 1" using ok by (rule registrations_le_1)
  have b: "registrations ?m1 e ev h = 1"
    using registrations_le_1 [OF ok1, of e ev h] registrations_ge_1 [OF reg1] by simp
  have c: "elementListeners ?m2 = elementListeners ?m1" "dom_listeners ?m2 = dom_listeners ?m1"
      "listenerId ?m2 = Suc (listenerId ?m1)"
    by (simp_all add: m2)
  have d: "registrations ?m2 e ev h = 1"
    using b c(1) by (simp add: registrations_def entries_def)
  have f: "count_list (fst (dispatch ?m2 e ev)) h \<le> 1" using ok2 by (rule fired_le_1)
  have at: "?l \<in> set (dom_listeners ?m2 e)" if "registrations ?m e ev h = 0"
    using new_listener_attached [OF ok that, of opts1] c(2) by simp
  have g: "count_list (fst (dispatch ?m2 e ev)) h = 1" if "registrations ?m e ev h = 0"
    using ok2 at [OF that] by (rule fired_once) simp_all
  have i: "count_list (fst (dispatch (after_events ?m2 evs) e ev)) h = 1"
    if "registrations ?m e ev h = 0" "\<not> once_of (options_of opts1)" for evs
  proof -
    have "?l \<in> set (dom_listeners (after_events ?m2 evs) e)"
      using at [OF that(1)] by (rule survives_events) (simp add: that(2))
    with manager_ok_after_events [OF ok2, of evs] show ?thesis
      by (rule fired_once) simp_all
  qed
  have j: "count_list (fst (dispatch (after_events ?m2 evs) e ev)) h = 1"
    if val: "val \<in> set (entries ?m2 e)" and reg: "matches ev h val"
      and keep: "\<not> once_of (options val)" for val evs
  proof -
    have "entries ?m2 e = map snd (tracked_of ?m2 e)"
      by (cases "elementListeners ?m2 e") (simp_all add: entries_def tracked_of_def)
    then obtain kv where kv: "kv \<in> set (tracked_of ?m2 e)" "snd kv = val" using val by auto
    have "element_ok (listenerId ?m2) (Some (tracked_of ?m2 e)) (dom_listeners ?m2 e)"
      using ok2 by (rule manager_ok_tracked)
    from element_ok_D(6) [OF this kv(1)] keep kv(2)
    obtain l where l: "l \<in> set (dom_listeners ?m2 e)" "attached_for val l" "\<not> l_once l"
      by auto
    have "l \<in> set (dom_listeners (after_events ?m2 evs) e)"
      using l(1,3) by (rule survives_events)
    with manager_ok_after_events [OF ok2, of evs] show ?thesis
    proof (rule fired_once)
      show "l_type l = ev" "l_callback l = h"
        using l(2) reg by (simp_all add: attached_for_def same_listener_def matches_def)
    qed
  qed
  show ?thesis
    unfolding Let_def using a b c d f g i j by blast
qed

theorem add_twice_registers_once_witness:
  "registrations (exec [Add (Element 1) ''click'' 6 None]) 1 ''click'' 5 = 0
   \<and> \<not> once_of (options_of None)
   \<and> count_list (fst (dispatch
        (add (add (exec [Add (Element 1) ''click'' 6 None]) (Element 1) ''click'' 5 None)
           (Element 1) ''click'' 5 None) 1 ''click'')) 5 = 1
   \<and> count_list (fst (dispatch (after_events
        (add (add (exec [Add (Element 1) ''click'' 6 None]) (Element 1) ''click'' 5 None)
           (Element 1) ''click'' 5 None) [(1, ''click''), (1, ''click'')]) 1 ''click'')) 5 = 1"
proof -
  have new: "registrations (exec [Add (Element 1) ''click'' 6 None]) 1 ''click'' 5 = 0"
    by (simp add: manager_eval)
  have keep: "\<not> once_of (options_of None)"
    by (simp add: options_of_def)
  show ?thesis
    using add_twice_registers_once [of "[Add (Element 1) ''click'' 6 None]" 1 "''click''" 5
        None None] new keep
    unfolding Let_def by blast
qed

subsection \<open>Bulk removal\<close>

text \<open>
  C6. In a page that touches listeners only through the manager, whatever was done before
  (\<open>ops\<close>): \<open>removeAllForElement\<close> leaves the element without entries and without
  listeners, so every recorded handler has been detached (each \<^verbatim>\<open>removeEventListener\<close>
  call got the recorded options, or the listener would still be there), and no event at
  the element invokes anything afterwards. Other elements and the key counter are
  untouched. For an element without entries nothing changes for any element's listeners
  or entries, and for an element the manager has never seen the manager is unchanged.
\<close>

theorem removeAllForElement_detaches_all:
  "let m = exec ops;
       m' = removeAllForElement m (Element e)
   in elementListeners m' e = None \<and> entries m' e = []
    \<and> dom_listeners m' e = []
    \<and> (\<forall>evs ty. fst (dispatch (after_events m' evs) e ty) = [])
    \<and> (\<forall>e'. e' \<noteq> e \<longrightarrow> elementListeners m' e' = elementListeners m e'
                       \<and> dom_listeners m' e' = dom_listeners m e')
    \<and> listenerId m' = listenerId m
    \<and> (entries m e = [] \<longrightarrow> dom_listeners m' = dom_listeners m
                          \<and> (\<forall>e'. entries m' e' = entries m e'))
    \<and> (elementListeners m e = None \<longrightarrow> m' = m)"
proof -
  let ?m = "exec ops"
  let ?m' = "removeAllForElement ?m (Element e)"
  have ok: "manager_ok ?m" by (rule manager_ok_exec)
  have eq: "?m' = ?m\<lparr>dom_listeners := (dom_listeners ?m)(e := []),
                     elementListeners := (elementListeners ?m)(e := None)\<rparr>"
  proof (cases "elementListeners ?m e")
    case None
    then have "dom_listeners ?m e = []"
      using manager_ok_D [OF ok, of e] by (simp add: element_ok_def)
    then have "(dom_listeners ?m)(e := []) = dom_listeners ?m" by auto
    moreover have "(elementListeners ?m)(e := None) = elementListeners ?m" using None by auto
    ultimately show ?thesis using None by (simp add: removeAllForElement_def)
  next
    case (Some kvs)
    have el: "element_ok (listenerId ?m) (Some kvs) (dom_listeners ?m e)"
      using manager_ok_D [OF ok, of e] Some by simp
    show ?thesis
      using removeAllForElement_element [OF Some element_ok_D(5) [OF el]] detached_all [OF el]
      by simp
  qed
  have a: "elementListeners ?m' e = None" "entries ?m' e = []" "dom_listeners ?m' e = []"
      "listenerId ?m' = listenerId ?m"
    by (simp_all add: eq entries_def)
  have b: "fst (dispatch (after_events ?m' evs) e ty) = []" for evs ty
    using no_listeners_after_events [OF a(3), of evs] by (simp add: dispatch_def)
  have c: "elementListeners ?m' e' = elementListeners ?m e' \<and> dom_listeners ?m' e' = dom_listeners ?m e'"
    if "e' \<noteq> e" for e'
    using that by (simp add: eq)
  have d: "dom_listeners ?m' = dom_listeners ?m \<and> (\<forall>e'. entries ?m' e' = entries ?m e')"
    if "entries ?m e = []"
  proof -
    have "tracked_of ?m e = []" using that
      by (cases "elementListeners ?m e") (simp_all add: entries_def tracked_of_def)
    moreover have "element_ok (listenerId ?m) (Some (tracked_of ?m e)) (dom_listeners ?m e)"
      using ok by (rule manager_ok_tracked)
    ultimately have "dom_listeners ?m e = []" by (simp add: element_ok_def)
    then have "(dom_listeners ?m)(e := []) = dom_listeners ?m" by auto
    then show ?thesis using that by (simp add: eq entries_def)
  qed
  have f: "?m' = ?m" if "elementListeners ?m e = None"
    using that by (simp add: removeAllForElement_def)
  show ?thesis
    unfolding Let_def using a b c d f by blast
qed

theorem removeAllForElement_detaches_all_witness:
  "entries (exec [Add (Element 1) ''click'' 5 None, Add (Element 1) ''keyup'' 6 (Some (Flag True)),
                  Add (Element 2) ''click'' 5 None]) 1 \<noteq> []
   \<and> fst (dispatch (exec [Add (Element 1) ''click'' 5 None,
                           Add (Element 1) ''keyup'' 6 (Some (Flag True)),
                           Add (Element 2) ''click'' 5 None]) 1 ''click'') = [5]
   \<and> fst (dispatch (after_events (removeAllForElement
            (exec [Add (Element 1) ''click'' 5 None,
                   Add (Element 1) ''keyup'' 6 (Some (Flag True)),
                   Add (Element 2) ''click'' 5 None]) (Element 1)) [(1, ''keyup'')])
          1 ''click'') = []
   \<and> elementListeners (exec []) 7 = None
   \<and> removeAllForElement (exec []) (Element 7) = exec []"
proof -
  have before: "entries (exec [Add (Element 1) ''click'' 5 None,
                   Add (Element 1) ''keyup'' 6 (Some (Flag True)),
                   Add (Element 2) ''click'' 5 None]) 1 \<noteq> []"
    "fst (dispatch (exec [Add (Element 1) ''click'' 5 None,
                           Add (Element 1) ''keyup'' 6 (Some (Flag True)),
                           Add (Element 2) ''click'' 5 None]) 1 ''click'') = [5]"
    by (simp_all add: manager_eval)
  have untracked: "elementListeners (exec []) 7 = None"
    by (simp add: exec_def new_manager_def)
  show ?thesis
    using removeAllForElement_detaches_all [of "[Add (Element 1) ''click'' 5 None,
                   Add (Element 1) ''keyup'' 6 (Some (Flag True)),
                   Add (Element 2) ''click'' 5 None]" 1]
      removeAllForElement_detaches_all [of "[]" 7] before untracked
    unfolding Let_def by simp
qed

subsection \<open>Absent elements\<close>

text \<open>
  C8. With \<^verbatim>\<open>null\<close> or \<^verbatim>\<open>undefined\<close> for the element, \<open>add\<close>, \<open>remove\<close> and
  \<open>removeAllForElement\<close> return at once: the manager and the listener lists are exactly
  as before, whatever the event type, handler and options. None of the three operations
  has a path that throws.
\<close>

theorem absent_element_is_ignored:
  "add m ElNull ev h opts_arg = m \<and> add m ElUndefined ev h opts_arg = m
   \<and> remove m ElNull ev h = m \<and> remove m ElUndefined ev h = m
   \<and> removeAllForElement m ElNull = m \<and> removeAllForElement m ElUndefined = m"
  by (simp add: add_def remove_def removeAllForElement_def)

end
